theory Spec2Isabelle
  imports Complex_Main "HOL-Library.Word" "HOL-Library.Sublist"
begin

section \<open>Data model\<close>

text \<open>
  Python \<open>bytes\<close> are lists of 8-bit words; Python \<open>str\<close> values are lists of Unicode
  code points (natural numbers), since the source decodes UTF-8 and strips and splits on
  Unicode white space.
\<close>

type_synonym byte = "8 word"
type_synonym str = "nat list"

definition lit :: "string \<Rightarrow> str" where
  "lit s = map of_char s"

datatype exn =
    UnicodeDecodeError
  | ValueError
  | TypeError
  | NotImplementedError
  | RuntimeError str
  | TimeoutError
  | AttributeError

subsection \<open>ShellProtocolTypes\<close>

definition STDIN :: nat where "STDIN = 0"
definition STDOUT :: nat where "STDOUT = 1"
definition STDERR :: nat where "STDERR = 2"
definition EXIT :: nat where "EXIT = 3"
definition CLOSE_STDIN :: nat where "CLOSE_STDIN = 4"
definition WINDOW_SIZE_CHANGE :: nat where "WINDOW_SIZE_CHANGE = 5"
definition INVALID :: nat where "INVALID = 255"

subsection \<open>Library functions used by the source\<close>

text \<open>\<open>int.from_bytes(data, "little")\<close>: an unbounded unsigned integer.\<close>

fun int_from_bytes_little :: "byte list \<Rightarrow> nat" where
  "int_from_bytes_little [] = 0"
| "int_from_bytes_little (b # bs) = unat b + 256 * int_from_bytes_little bs"

text \<open>
  \<open>bytes.decode("utf-8")\<close> with the default strict error handler: the well-formed byte
  sequences of the Unicode standard (no overlong forms, no surrogates, nothing above
  U+10FFFF); anything else raises \<open>UnicodeDecodeError\<close>.
\<close>

definition utf8_cont :: "byte \<Rightarrow> bool" where
  "utf8_cont b \<longleftrightarrow> 0x80 \<le> b \<and> b \<le> 0xBF"

definition utf8_bits :: "byte \<Rightarrow> nat" where
  "utf8_bits b = unat b mod 64"

fun utf8_next :: "byte list \<Rightarrow> (nat \<times> byte list) option" where
  "utf8_next [] = None"
| "utf8_next (b0 # bs) =
     (if b0 < 0x80 then Some (unat b0, bs)
      else if 0xC2 \<le> b0 \<and> b0 \<le> 0xDF then
        (case bs of
           b1 # r \<Rightarrow>
             if utf8_cont b1 then Some ((unat b0 mod 32) * 64 + utf8_bits b1, r) else None
         | _ \<Rightarrow> None)
      else if 0xE0 \<le> b0 \<and> b0 \<le> 0xEF then
        (case bs of
           b1 # b2 # r \<Rightarrow>
             if (if b0 = 0xE0 then 0xA0 else 0x80) \<le> b1
                \<and> b1 \<le> (if b0 = 0xED then 0x9F else 0xBF) \<and> utf8_cont b2
             then Some ((unat b0 mod 16) * 4096 + utf8_bits b1 * 64 + utf8_bits b2, r)
             else None
         | _ \<Rightarrow> None)
      else if 0xF0 \<le> b0 \<and> b0 \<le> 0xF4 then
        (case bs of
           b1 # b2 # b3 # r \<Rightarrow>
             if (if b0 = 0xF0 then 0x90 else 0x80) \<le> b1
                \<and> b1 \<le> (if b0 = 0xF4 then 0x8F else 0xBF) \<and> utf8_cont b2 \<and> utf8_cont b3
             then Some ((unat b0 mod 8) * 262144 + utf8_bits b1 * 4096
                        + utf8_bits b2 * 64 + utf8_bits b3, r)
             else None
         | _ \<Rightarrow> None)
      else None)"

lemma utf8_next_shorter: "utf8_next bs = Some (cp, r) \<Longrightarrow> length r < length bs"
  by (cases bs) (auto split: if_splits list.splits)

function decode_utf8 :: "byte list \<Rightarrow> exn + str" where
  "decode_utf8 bs =
     (if bs = [] then Inr []
      else case utf8_next bs of
             None \<Rightarrow> Inl UnicodeDecodeError
           | Some (cp, r) \<Rightarrow>
               (case decode_utf8 r of Inl e \<Rightarrow> Inl e | Inr s \<Rightarrow> Inr (cp # s)))"
  by pat_completeness auto
termination
  by (relation "measure length") (auto simp: utf8_next_shorter)

declare decode_utf8.simps [simp del]

text \<open>
  \<open>str.isspace\<close> on one code point: the characters \<open>str.strip()\<close> and \<open>str.split()\<close>
  treat as white space.
\<close>

definition py_isspace :: "nat \<Rightarrow> bool" where
  "py_isspace c \<longleftrightarrow>
     (9 \<le> c \<and> c \<le> 13) \<or> (28 \<le> c \<and> c \<le> 32) \<or> c = 0x85 \<or> c = 0xA0 \<or> c = 0x1680
     \<or> (0x2000 \<le> c \<and> c \<le> 0x200A) \<or> c = 0x2028 \<or> c = 0x2029 \<or> c = 0x202F
     \<or> c = 0x205F \<or> c = 0x3000"

text \<open>\<open>s.strip()\<close>\<close>

definition py_strip :: "str \<Rightarrow> str" where
  "py_strip s = rev (dropWhile py_isspace (rev (dropWhile py_isspace s)))"

text \<open>\<open>s.split()\<close>: the maximal runs of characters that are not white space.\<close>

fun split_ws :: "str \<Rightarrow> str \<Rightarrow> str list" where
  "split_ws cur [] = (if cur = [] then [] else [rev cur])"
| "split_ws cur (c # cs) =
     (if py_isspace c then (if cur = [] then split_ws [] cs else rev cur # split_ws [] cs)
      else split_ws (c # cur) cs)"

definition py_split :: "str \<Rightarrow> str list" where
  "py_split s = split_ws [] s"

text \<open>\<open>s.split(sep)\<close> for a one-character separator: empty pieces are kept.\<close>

fun split_on :: "nat \<Rightarrow> str \<Rightarrow> str list" where
  "split_on sep [] = [[]]"
| "split_on sep (c # cs) =
     (if c = sep then [] # split_on sep cs
      else (case split_on sep cs of
              l # ls \<Rightarrow> (c # l) # ls
            | [] \<Rightarrow> [[c]]))"

text \<open>\<open>needle in hay\<close> on strings: \<open>needle\<close> occurs as a contiguous substring.\<close>

fun str_contains :: "str \<Rightarrow> str \<Rightarrow> bool" where
  "str_contains needle [] = (needle = [])"
| "str_contains needle (c # cs) = (prefix needle (c # cs) \<or> str_contains needle cs)"

subsection \<open>Connection\<close>

text \<open>
  Modelled from the spec: the connection capability of the transport layer, which is not
  part of this module. A connection holds the bytes the peer will still deliver, the
  command lines sent so far, and whether it has been closed. \<open>read(n)\<close> returns the next
  \<open>n\<close> bytes, fewer only when the stream ends; \<open>read_all()\<close> returns everything up to the
  end of the stream. Sending, reading and closing always succeed here: the failures of the
  socket are the transport layer's. The operations take the connection returned by
  \<open>self.create_connection(timeout=timeout)\<close> as argument and return it as it is left.
\<close>

record connection =
  sent :: "str list"
  incoming :: "byte list"
  is_closed :: bool

definition conn_send :: "str \<Rightarrow> connection \<Rightarrow> connection" where
  "conn_send cmd conn = conn\<lparr>sent := sent conn @ [cmd]\<rparr>"

definition conn_read :: "nat \<Rightarrow> connection \<Rightarrow> byte list \<times> connection" where
  "conn_read n conn = (take n (incoming conn), conn\<lparr>incoming := drop n (incoming conn)\<rparr>)"

definition conn_read_all :: "connection \<Rightarrow> byte list \<times> connection" where
  "conn_read_all conn = (incoming conn, conn\<lparr>incoming := []\<rparr>)"

definition conn_close :: "connection \<Rightarrow> connection" where
  "conn_close conn = conn\<lparr>is_closed := True\<rparr>"

section \<open>Transport.shell\_v2\<close>

definition read_int :: "connection \<Rightarrow> nat \<Rightarrow> nat option \<times> connection" where
  "read_int conn len =
     (case conn_read len conn of
        (data, conn') \<Rightarrow>
          if length data < len then (None, conn')
          else (Some (int_from_bytes_little data), conn'))"

text \<open>
  The \<open>while True\<close> loop of \<open>shell_v2\<close>. The accumulators \<open>output\<close>, \<open>stdout\<close>, \<open>stderr\<close> and
  \<open>exit_code\<close> are the loop state; the source binds \<open>output\<close> only in merged mode and
  \<open>stdout\<close>, \<open>stderr\<close> only in separate mode, and each mode touches only its own.
\<close>

type_synonym v2_state = "str \<times> str \<times> str \<times> nat"

function shell_v2_loop ::
  "bool \<Rightarrow> v2_state \<Rightarrow> connection \<Rightarrow> (exn + v2_state) \<times> connection" where
  "shell_v2_loop separate_stdout_stderr (output, stdout, stderr, exit_code) conn =
     (case read_int conn 1 of
        (None, conn1) \<Rightarrow> (Inr (output, stdout, stderr, exit_code), conn1)
      | (Some id_, conn1) \<Rightarrow>
     (case read_int conn1 4 of
        (None, conn2) \<Rightarrow> (Inr (output, stdout, stderr, exit_code), conn2)
      | (Some len, conn2) \<Rightarrow>
     (case conn_read len conn2 of
        (data, conn3) \<Rightarrow>
          if length data < len then (Inr (output, stdout, stderr, exit_code), conn3)
          else if \<not> separate_stdout_stderr \<and> (id_ = STDOUT \<or> id_ = STDERR) then
            (case decode_utf8 data of
               Inl e \<Rightarrow> (Inl e, conn3)
             | Inr s \<Rightarrow>
                 shell_v2_loop separate_stdout_stderr
                   (output @ s, stdout, stderr, exit_code) conn3)
          else if id_ = STDOUT then
            (case decode_utf8 data of
               Inl e \<Rightarrow> (Inl e, conn3)
             | Inr s \<Rightarrow>
                 shell_v2_loop separate_stdout_stderr
                   (output, stdout @ s, stderr, exit_code) conn3)
          else if id_ = STDERR then
            (case decode_utf8 data of
               Inl e \<Rightarrow> (Inl e, conn3)
             | Inr s \<Rightarrow>
                 shell_v2_loop separate_stdout_stderr
                   (output, stdout, stderr @ s, exit_code) conn3)
          else if id_ = EXIT then
            shell_v2_loop separate_stdout_stderr
              (output, stdout, stderr, int_from_bytes_little data) conn3
          else
            shell_v2_loop separate_stdout_stderr
              (output, stdout, stderr, exit_code) conn3)))"
  by pat_completeness auto

termination
  by (relation "measure (\<lambda>(sep, st, conn). length (incoming conn))")
     (auto simp: read_int_def conn_read_def split: if_splits)

declare shell_v2_loop.simps [simp del]

datatype v2_result = Merged str nat | Separate str str nat

text \<open>
  \<open>shell_v2(cmd, handler, separate_stdout_stderr)\<close> on the connection \<open>conn0\<close> that
  \<open>create_connection\<close> returned. With a handler the connection is passed to it and the
  call returns \<open>None\<close>.
\<close>

definition shell_v2 ::
  "str \<Rightarrow> (connection \<Rightarrow> connection) option \<Rightarrow> bool \<Rightarrow> connection
     \<Rightarrow> (exn + v2_result option) \<times> connection" where
  "shell_v2 cmd handler separate_stdout_stderr conn0 =
     (let conn = conn_send (lit ''shell,v2:'' @ cmd) conn0 in
      case handler of
        Some h \<Rightarrow> (Inr None, h conn)
      | None \<Rightarrow>
          (case shell_v2_loop separate_stdout_stderr ([], [], [], 255) conn of
             (Inl e, conn') \<Rightarrow> (Inl e, conn')
           | (Inr (output, stdout, stderr, exit_code), conn') \<Rightarrow>
               if separate_stdout_stderr
               then (Inr (Some (Separate stdout stderr exit_code)), conn')
               else (Inr (Some (Merged output exit_code)), conn')))"

section \<open>Transport.shell\<close>

definition shell ::
  "str \<Rightarrow> (connection \<Rightarrow> connection) option \<Rightarrow> connection
     \<Rightarrow> (exn + str option) \<times> connection" where
  "shell cmd handler conn0 =
     (let conn = conn_send (lit ''shell:'' @ cmd) conn0 in
      case handler of
        Some h \<Rightarrow> (Inr None, h conn)
      | None \<Rightarrow>
          (case conn_read_all conn of
             (result, conn1) \<Rightarrow>
               (let conn2 = conn_close conn1 in
                case decode_utf8 result of
                  Inl e \<Rightarrow> (Inl e, conn2)
                | Inr s \<Rightarrow> (Inr (Some s), conn2))))"

section \<open>Transport.framebuffer and Transport.logcat\<close>

text \<open>
  Both bodies are \<open>raise NotImplemented()\<close>. \<open>NotImplemented\<close> is the built-in constant
  (the one value of \<open>NotImplementedType\<close>), not the exception class
  \<open>NotImplementedError\<close>; it is not callable, so evaluating the operand of \<open>raise\<close> raises
  \<open>TypeError\<close> before anything is raised by the statement itself.
\<close>

definition call_NotImplemented :: "exn + exn" where
  "call_NotImplemented = Inl TypeError"

definition raise_call_NotImplemented :: "exn + unit" where
  "raise_call_NotImplemented = (case call_NotImplemented of Inl e \<Rightarrow> Inl e | Inr v \<Rightarrow> Inl v)"

definition framebuffer :: "exn + unit" where
  "framebuffer = raise_call_NotImplemented"

definition logcat :: "bool \<Rightarrow> exn + unit" where
  "logcat clear = raise_call_NotImplemented"

section \<open>Transport.list\_features\<close>

text \<open>
  The pattern \<open>^feature:(.*?)(?:=(.*?))?\r?$\<close> under \<open>re.match\<close>, as the backtracking
  matcher runs it. \<open>.\<close> matches any character but line feed; \<open>$\<close> matches at the end of the
  string and before a line feed that ends the string.
\<close>

definition at_dollar :: "str \<Rightarrow> bool" where
  "at_dollar s \<longleftrightarrow> s = [] \<or> s = [10]"

text \<open>\<open>\r?$\<close>: the greedy optional carriage return first, then without it.\<close>

definition cr_dollar :: "str \<Rightarrow> bool" where
  "cr_dollar s \<longleftrightarrow> (case s of c # cs \<Rightarrow> c = 13 \<and> at_dollar cs | [] \<Rightarrow> False) \<or> at_dollar s"

text \<open>\<open>(.*?)\r?$\<close>: the lazy group takes the fewest characters that let the rest match.\<close>

fun lazy_value :: "str \<Rightarrow> str \<Rightarrow> str option" where
  "lazy_value acc [] = (if cr_dollar [] then Some (rev acc) else None)"
| "lazy_value acc (c # cs) =
     (if cr_dollar (c # cs) then Some (rev acc)
      else if c = 10 then None
      else lazy_value (c # acc) cs)"

text \<open>
  \<open>(?:=(.*?))?\r?$\<close>: the optional group is tried first; when it cannot match, the
  matcher goes on without it and group 2 is unset.
\<close>

definition opt_value :: "str \<Rightarrow> str option option" where
  "opt_value s =
     (case (case s of c # cs \<Rightarrow> if c = 61 then lazy_value [] cs else None | [] \<Rightarrow> None) of
        Some v \<Rightarrow> Some (Some v)
      | None \<Rightarrow> if cr_dollar s then Some None else None)"

fun lazy_name :: "str \<Rightarrow> str \<Rightarrow> (str \<times> str option) option" where
  "lazy_name acc [] =
     (case opt_value [] of Some v \<Rightarrow> Some (rev acc, v) | None \<Rightarrow> None)"
| "lazy_name acc (c # cs) =
     (case opt_value (c # cs) of
        Some v \<Rightarrow> Some (rev acc, v)
      | None \<Rightarrow> if c = 10 then None else lazy_name (c # acc) cs)"

text \<open>\<open>re.match(result_pattern, line)\<close>: groups 1 and 2 of the match, if there is one.\<close>

definition match_feature :: "str \<Rightarrow> (str \<times> str option) option" where
  "match_feature line =
     (if prefix (lit ''feature:'') line then lazy_name [] (drop 8 line) else None)"

datatype feature_value = PyTrue | PyStr str

fun features_loop :: "str list \<Rightarrow> (str \<rightharpoonup> feature_value) \<Rightarrow> (str \<rightharpoonup> feature_value)" where
  "features_loop [] features = features"
| "features_loop (line # lines) features =
     (case match_feature line of
        Some (g1, g2) \<Rightarrow>
          features_loop lines
            (features(g1 \<mapsto> (case g2 of None \<Rightarrow> PyTrue | Some v \<Rightarrow> PyStr v)))
      | None \<Rightarrow> features_loop lines features)"

definition list_features ::
  "connection \<Rightarrow> (exn + (str \<rightharpoonup> feature_value)) \<times> connection" where
  "list_features conn0 =
     (case shell (lit ''pm list features 2>/dev/null'') None conn0 of
        (Inl e, conn) \<Rightarrow> (Inl e, conn)
      | (Inr None, conn) \<Rightarrow> (Inl AttributeError, conn)
      | (Inr (Some result), conn) \<Rightarrow>
          (Inr (features_loop (split_on 10 result) Map.empty), conn))"

text \<open>
  What one line contributes to the dictionary: the pair stored for a line that matches,
  nothing for a line that does not.
\<close>

definition feature_entry :: "str \<Rightarrow> (str \<times> feature_value) option" where
  "feature_entry line =
     (case match_feature line of
        None \<Rightarrow> None
      | Some (g1, g2) \<Rightarrow> Some (g1, case g2 of None \<Rightarrow> PyTrue | Some v \<Rightarrow> PyStr v))"

section \<open>Transport.list\_reverses\<close>

record reverse_entry =
  remote :: str
  local_ :: str

text \<open>The \<open>for line in result.split('\n')\<close> loop; a tuple unpacking of the wrong size
  raises \<open>ValueError\<close>.\<close>

fun reverses_loop :: "str list \<Rightarrow> reverse_entry list \<Rightarrow> exn + reverse_entry list" where
  "reverses_loop [] reverses = Inr reverses"
| "reverses_loop (line # lines) reverses =
     (if line = [] then reverses_loop lines reverses
      else (case py_split line of
              [serial, rem, loc] \<Rightarrow>
                reverses_loop lines (reverses @ [\<lparr>remote = rem, local_ = loc\<rparr>])
            | _ \<Rightarrow> Inl ValueError))"

text \<open>
  Modelled from the spec: \<open>receive()\<close> reads one complete framed response and returns
  it as text; the framing belongs to the transport layer, so the operation is a parameter.
  The \<open>with conn:\<close> block closes the connection however it is left.
\<close>

definition list_reverses ::
  "(connection \<Rightarrow> (exn + str) \<times> connection) \<Rightarrow> connection
     \<Rightarrow> (exn + reverse_entry list) \<times> connection" where
  "list_reverses receive conn0 =
     (let conn = conn_send (lit ''reverse:list-forward'') conn0 in
      case receive conn of
        (Inl e, conn1) \<Rightarrow> (Inl e, conn_close conn1)
      | (Inr result, conn1) \<Rightarrow>
          (case reverses_loop (split_on 10 result) [] of
             Inl e \<Rightarrow> (Inl e, conn_close conn1)
           | Inr reverses \<Rightarrow> (Inr reverses, conn_close conn1)))"

text \<open>A \<open>receive\<close> that answers with a given text.\<close>

definition respond :: "str \<Rightarrow> connection \<Rightarrow> (exn + str) \<times> connection" where
  "respond text conn = (Inr text, conn)"

section \<open>Transport.root\<close>

definition root_cmd :: "connection \<Rightarrow> (exn + bool) \<times> connection" where
  "root_cmd conn0 =
     (let conn = conn_send (lit ''root:'') conn0 in
      case conn_read_all conn of
        (data, conn1) \<Rightarrow>
          (case decode_utf8 data of
             Inl e \<Rightarrow> (Inl e, conn_close conn1)
           | Inr result \<Rightarrow>
               if str_contains (lit ''restarting adbd as root'') result
               then (Inr True, conn_close conn1)
               else (Inl (RuntimeError (py_strip result)), conn_close conn1)))"

section \<open>Transport.wait\_boot\_complete\<close>

text \<open>
  The poller reads the wall clock, runs the shell query and sleeps. The world it runs in is
  a clock and three counters. The query is a parameter: its \<open>k\<close>-th invocation (from 0)
  yields a result or an exception and takes some time; \<open>time.sleep(d)\<close> advances the clock
  by \<open>d\<close>. Times are exact real numbers of seconds.
\<close>

record world =
  clock :: real
  attempts :: nat
  sleeps :: nat
  clock_reads :: nat

type_synonym query = "nat \<Rightarrow> (exn + str) \<times> real"

definition run_query :: "query \<Rightarrow> world \<Rightarrow> (exn + str) \<times> world" where
  "run_query q w =
     (fst (q (attempts w)),
      w\<lparr>clock := clock w + snd (q (attempts w)), attempts := Suc (attempts w)\<rparr>)"

definition time_time :: "world \<Rightarrow> real \<times> world" where
  "time_time w = (clock w, w\<lparr>clock_reads := Suc (clock_reads w)\<rparr>)"

definition time_sleep :: "real \<Rightarrow> world \<Rightarrow> world" where
  "time_sleep d w = w\<lparr>clock := clock w + d, sleeps := Suc (sleeps w)\<rparr>"

text \<open>\<open>except RuntimeError\<close> catches \<open>RuntimeError\<close> and its subclasses.\<close>

fun is_RuntimeError :: "exn \<Rightarrow> bool" where
  "is_RuntimeError (RuntimeError m) = True"
| "is_RuntimeError NotImplementedError = True"
| "is_RuntimeError e = False"

text \<open>
  The \<open>while True\<close> loop, with fuel: \<open>None\<close> is a loop that is still running when the
  fuel is spent, \<open>Some\<close> is a return or a raise.
\<close>

fun wait_loop ::
  "nat \<Rightarrow> query \<Rightarrow> real \<Rightarrow> real \<Rightarrow> world \<Rightarrow> (exn + bool) option \<times> world" where
  "wait_loop 0 q end_time timedelta w = (None, w)"
| "wait_loop (Suc fuel) q end_time timedelta w =
     (case run_query q w of
        (Inl e, w1) \<Rightarrow>
          if is_RuntimeError e then wait_loop fuel q end_time timedelta w1
          else (Some (Inl e), w1)
      | (Inr result, w1) \<Rightarrow>
          if py_strip result = lit ''1'' then (Some (Inr True), w1)
          else (case time_time w1 of
                  (now, w2) \<Rightarrow>
                    if now > end_time then (Some (Inl TimeoutError), w2)
                    else if timedelta > 0 then
                      wait_loop fuel q end_time timedelta (time_sleep timedelta w2)
                    else wait_loop fuel q end_time timedelta w2))"

definition wait_boot_complete ::
  "nat \<Rightarrow> query \<Rightarrow> real \<Rightarrow> real \<Rightarrow> world \<Rightarrow> (exn + bool) option \<times> world" where
  "wait_boot_complete fuel q timeout timedelta w =
     (case time_time w of
        (now, w1) \<Rightarrow> wait_loop fuel q (now + timeout) timedelta w1)"

text \<open>
  Queries for concrete runs: one that always answers a given text, one that always raises
  \<open>RuntimeError\<close>, each taking a given time; and a world at time 0.
\<close>

definition answering :: "str \<Rightarrow> real \<Rightarrow> query" where
  "answering r d k = (Inr r, d)"

definition failing :: "str \<Rightarrow> real \<Rightarrow> query" where
  "failing m d k = (Inl (RuntimeError m), d)"

definition start :: world where
  "start = \<lparr>clock = 0, attempts = 0, sleeps = 0, clock_reads = 0\<rparr>"

section \<open>Frames on the wire\<close>

text \<open>
  A shell-v2 frame is an id byte, the payload length as four little-endian bytes, and the
  payload. \<open>encode_frames\<close> is the byte stream that carries a list of frames.
\<close>

type_synonym frame = "byte \<times> byte list"

definition le32 :: "nat \<Rightarrow> byte list" where
  "le32 n = [of_nat n, of_nat (n div 256), of_nat (n div 65536), of_nat (n div 16777216)]"

definition encode_frame :: "frame \<Rightarrow> byte list" where
  "encode_frame f = fst f # le32 (length (snd f)) @ snd f"

definition encode_frames :: "frame list \<Rightarrow> byte list" where
  "encode_frames fs = concat (map encode_frame fs)"

text \<open>
  A stream that ends inside a frame: nothing where the id is expected, fewer than four
  bytes where the length is expected, or fewer payload bytes than the length declares.
\<close>

definition truncated :: "byte list \<Rightarrow> bool" where
  "truncated bs \<longleftrightarrow>
     bs = [] \<or> length bs < 5 \<or> length bs - 5 < int_from_bytes_little (take 4 (tl bs))"

text \<open>The text a payload decodes to, and what a frame list should produce.\<close>

definition payload_text :: "byte list \<Rightarrow> str" where
  "payload_text p = (case decode_utf8 p of Inl e \<Rightarrow> [] | Inr s \<Rightarrow> s)"

definition decodable :: "frame \<Rightarrow> bool" where
  "decodable f \<longleftrightarrow>
     (unat (fst f) = STDOUT \<or> unat (fst f) = STDERR) \<longrightarrow> \<not> isl (decode_utf8 (snd f))"

definition texts :: "(nat \<Rightarrow> bool) \<Rightarrow> frame list \<Rightarrow> str" where
  "texts P fs = concat (map (\<lambda>f. payload_text (snd f)) (filter (\<lambda>f. P (unat (fst f))) fs))"

definition last_exit :: "nat \<Rightarrow> frame list \<Rightarrow> nat" where
  "last_exit d fs =
     (case filter (\<lambda>f. unat (fst f) = EXIT) fs of
        [] \<Rightarrow> d
      | e # es \<Rightarrow> int_from_bytes_little (snd (last (e # es))))"

text \<open>The bytes of an ASCII literal.\<close>

definition ascii :: "string \<Rightarrow> byte list" where
  "ascii s = map of_char s"

text \<open>A connection just created, with the bytes the peer will deliver.\<close>

definition fresh :: "byte list \<Rightarrow> connection" where
  "fresh bs = \<lparr>sent = [], incoming = bs, is_closed = False\<rparr>"

section \<open>The demultiplexer loop, frame by frame\<close>

lemma le32_roundtrip:
  assumes "n < 2 ^ 32"
  shows "int_from_bytes_little (le32 n) = n"
proof -
  define r0 where "r0 = n mod 256"
  define q1 where "q1 = n div 256"
  define r1 where "r1 = q1 mod 256"
  define q2 where "q2 = q1 div 256"
  define r2 where "r2 = q2 mod 256"
  define q3 where "q3 = q2 div 256"
  have e0: "n = r0 + 256 * q1" by (simp add: r0_def q1_def)
  have e1: "q1 = r1 + 256 * q2" by (simp add: r1_def q2_def)
  have e2: "q2 = r2 + 256 * q3" by (simp add: r2_def q3_def)
  have d2: "n div 65536 = q2" by (simp add: q2_def q1_def div_mult2_eq)
  have d3: "n div 16777216 = q3" by (simp add: q3_def q2_def q1_def div_mult2_eq)
  have "q3 < 256" using assms d3 [symmetric] by (simp add: less_mult_imp_div_less)
  then have m3: "q3 mod 256 = q3" by simp
  have "int_from_bytes_little (le32 n) = r0 + 256 * (r1 + 256 * (r2 + 256 * q3))"
    unfolding le32_def
    by (simp add: unat_of_nat d2 d3 m3 flip: r0_def q1_def r1_def r2_def)
  also have "\<dots> = n" using e0 e1 e2 by simp
  finally show ?thesis .
qed

lemma length_le32: "length (le32 n) = 4"
  by (simp add: le32_def)

lemma read_int_1:
  "incoming conn = b # bs \<Longrightarrow> read_int conn 1 = (Some (unat b), conn\<lparr>incoming := bs\<rparr>)"
  by (simp add: read_int_def conn_read_def)

lemma read_int_4:
  "n < 2 ^ 32 \<Longrightarrow> incoming conn = le32 n @ bs
     \<Longrightarrow> read_int conn 4 = (Some n, conn\<lparr>incoming := bs\<rparr>)"
  using le32_roundtrip [of n] by (simp add: read_int_def conn_read_def length_le32)

lemma conn_read_payload:
  "incoming conn = p @ bs \<Longrightarrow> conn_read (length p) conn = (p, conn\<lparr>incoming := bs\<rparr>)"
  by (simp add: conn_read_def)

text \<open>One complete frame at the head of the stream: the loop body runs once on it.\<close>

lemma shell_v2_loop_frame:
  assumes "length p < 2 ^ 32" and "incoming conn = encode_frame (i, p) @ rest"
  shows "shell_v2_loop sep (out, so, se, ec) conn =
     (if \<not> sep \<and> (unat i = STDOUT \<or> unat i = STDERR) then
        (case decode_utf8 p of
           Inl e \<Rightarrow> (Inl e, conn\<lparr>incoming := rest\<rparr>)
         | Inr s \<Rightarrow> shell_v2_loop sep (out @ s, so, se, ec) (conn\<lparr>incoming := rest\<rparr>))
      else if unat i = STDOUT then
        (case decode_utf8 p of
           Inl e \<Rightarrow> (Inl e, conn\<lparr>incoming := rest\<rparr>)
         | Inr s \<Rightarrow> shell_v2_loop sep (out, so @ s, se, ec) (conn\<lparr>incoming := rest\<rparr>))
      else if unat i = STDERR then
        (case decode_utf8 p of
           Inl e \<Rightarrow> (Inl e, conn\<lparr>incoming := rest\<rparr>)
         | Inr s \<Rightarrow> shell_v2_loop sep (out, so, se @ s, ec) (conn\<lparr>incoming := rest\<rparr>))
      else if unat i = EXIT then
        shell_v2_loop sep (out, so, se, int_from_bytes_little p) (conn\<lparr>incoming := rest\<rparr>)
      else shell_v2_loop sep (out, so, se, ec) (conn\<lparr>incoming := rest\<rparr>))"
proof -
  have r1: "read_int conn 1 = (Some (unat i), conn\<lparr>incoming := le32 (length p) @ p @ rest\<rparr>)"
    using assms(2) read_int_1 [of conn i "le32 (length p) @ p @ rest"]
    by (simp add: encode_frame_def)
  have r2: "read_int (conn\<lparr>incoming := le32 (length p) @ p @ rest\<rparr>) 4
              = (Some (length p), conn\<lparr>incoming := p @ rest\<rparr>)"
    using read_int_4 [OF assms(1), of "conn\<lparr>incoming := le32 (length p) @ p @ rest\<rparr>" "p @ rest"]
    by simp
  have r3: "conn_read (length p) (conn\<lparr>incoming := p @ rest\<rparr>) = (p, conn\<lparr>incoming := rest\<rparr>)"
    using conn_read_payload [of "conn\<lparr>incoming := p @ rest\<rparr>" p rest] by simp
  show ?thesis
    by (subst shell_v2_loop.simps) (simp add: r1 r2 r3 del: One_nat_def)
qed

text \<open>The three ways the stream can end inside a frame.\<close>

lemma loop_eof:
  assumes "incoming conn = []"
  shows "shell_v2_loop sep (out, so, se, ec) conn
           = (Inr (out, so, se, ec), conn\<lparr>incoming := []\<rparr>)"
proof -
  have "read_int conn 1 = (None, conn\<lparr>incoming := []\<rparr>)"
    using assms by (simp add: read_int_def conn_read_def)
  then show ?thesis
    by (subst shell_v2_loop.simps) (simp del: One_nat_def)
qed

lemma loop_short_length:
  assumes "incoming conn = b # bs" and "length bs < 4"
  shows "shell_v2_loop sep (out, so, se, ec) conn
           = (Inr (out, so, se, ec), conn\<lparr>incoming := []\<rparr>)"
proof -
  have r1: "read_int conn 1 = (Some (unat b), conn\<lparr>incoming := bs\<rparr>)"
    using assms(1) by (rule read_int_1)
  have r2: "read_int (conn\<lparr>incoming := bs\<rparr>) 4 = (None, conn\<lparr>incoming := []\<rparr>)"
    using assms(2) by (simp add: read_int_def conn_read_def)
  show ?thesis
    by (subst shell_v2_loop.simps) (simp add: r1 r2 del: One_nat_def)
qed

lemma loop_short_payload:
  assumes "incoming conn = b # bs" and "4 \<le> length bs"
    and "length bs - 4 < int_from_bytes_little (take 4 bs)"
  shows "shell_v2_loop sep (out, so, se, ec) conn
           = (Inr (out, so, se, ec), conn\<lparr>incoming := []\<rparr>)"
proof -
  have r1: "read_int conn 1 = (Some (unat b), conn\<lparr>incoming := bs\<rparr>)"
    using assms(1) by (rule read_int_1)
  have r2: "read_int (conn\<lparr>incoming := bs\<rparr>) 4
      = (Some (int_from_bytes_little (take 4 bs)), conn\<lparr>incoming := drop 4 bs\<rparr>)"
    using assms(2) by (simp add: read_int_def conn_read_def)
  have r3: "conn_read (int_from_bytes_little (take 4 bs)) (conn\<lparr>incoming := drop 4 bs\<rparr>)
      = (drop 4 bs, conn\<lparr>incoming := []\<rparr>)"
    using assms(3) by (simp add: conn_read_def)
  show ?thesis
    using assms(3) by (subst shell_v2_loop.simps) (simp add: r1 r2 r3 del: One_nat_def)
qed

lemma shell_v2_loop_truncated:
  assumes "truncated (incoming conn)"
  shows "shell_v2_loop sep (out, so, se, ec) conn
           = (Inr (out, so, se, ec), conn\<lparr>incoming := []\<rparr>)"
proof (cases "incoming conn")
  case Nil
  then show ?thesis by (rule loop_eof)
next
  case (Cons b bs)
  show ?thesis
  proof (cases "length bs < 4")
    case True
    with Cons show ?thesis by (rule loop_short_length)
  next
    case False
    then have "4 \<le> length bs" by simp
    moreover have "length bs - 4 < int_from_bytes_little (take 4 bs)"
      using assms Cons False by (simp add: truncated_def)
    ultimately show ?thesis using Cons by (intro loop_short_payload [of conn b bs])
  qed
qed

section \<open>Whole frame lists\<close>

lemma decode_payload_text: "\<not> isl (decode_utf8 p) \<Longrightarrow> decode_utf8 p = Inr (payload_text p)"
  by (cases "decode_utf8 p") (simp_all add: payload_text_def)

lemma texts_Cons:
  "texts P (f # fs) = (if P (unat (fst f)) then payload_text (snd f) @ texts P fs else texts P fs)"
  by (simp add: texts_def)

lemma texts_Nil: "texts P [] = []"
  by (simp add: texts_def)

lemma last_exit_Nil: "last_exit d [] = d"
  by (simp add: last_exit_def)

lemma last_exit_Cons:
  "last_exit d (f # fs)
     = last_exit (if unat (fst f) = EXIT then int_from_bytes_little (snd f) else d) fs"
  by (simp add: last_exit_def split: list.splits)

lemma encode_frames_Cons: "encode_frames (f # fs) = encode_frame f @ encode_frames fs"
  by (simp add: encode_frames_def)

lemma ids_distinct:
  "STDOUT \<noteq> STDERR" "STDOUT \<noteq> EXIT" "STDERR \<noteq> EXIT" "STDERR \<noteq> STDOUT" "EXIT \<noteq> STDOUT" "EXIT \<noteq> STDERR"
  by (simp_all add: STDOUT_def STDERR_def EXIT_def)

lemma shell_v2_loop_frames:
  assumes "\<forall>f \<in> set fs. length (snd f) < 2 ^ 32"
    and "\<forall>f \<in> set fs. decodable f"
    and "truncated tail"
    and "incoming conn = encode_frames fs @ tail"
  shows "shell_v2_loop sep (out, so, se, ec) conn =
     (Inr (if sep
           then (out, so @ texts (\<lambda>i. i = STDOUT) fs, se @ texts (\<lambda>i. i = STDERR) fs,
                 last_exit ec fs)
           else (out @ texts (\<lambda>i. i = STDOUT \<or> i = STDERR) fs, so, se, last_exit ec fs)),
      conn\<lparr>incoming := []\<rparr>)"
  using assms
proof (induction fs arbitrary: out so se ec conn)
  case Nil
  then have "truncated (incoming conn)" by (simp add: encode_frames_def)
  then show ?case
    by (simp add: shell_v2_loop_truncated texts_Nil last_exit_Nil)
next
  case (Cons f fs)
  obtain i p where f: "f = (i, p)" by (cases f)
  have len: "length p < 2 ^ 32" using Cons.prems(1) f by simp
  have inc: "incoming conn = encode_frame (i, p) @ (encode_frames fs @ tail)"
    using Cons.prems(4) f by (simp add: encode_frames_Cons)
  let ?c = "conn\<lparr>incoming := encode_frames fs @ tail\<rparr>"
  have ih: "\<And>out so se ec. shell_v2_loop sep (out, so, se, ec) ?c =
     (Inr (if sep
           then (out, so @ texts (\<lambda>i. i = STDOUT) fs, se @ texts (\<lambda>i. i = STDERR) fs,
                 last_exit ec fs)
           else (out @ texts (\<lambda>i. i = STDOUT \<or> i = STDERR) fs, so, se, last_exit ec fs)),
      conn\<lparr>incoming := []\<rparr>)"
    using Cons.IH [of ?c] Cons.prems by simp
  have dec: "unat i = STDOUT \<or> unat i = STDERR \<Longrightarrow> decode_utf8 p = Inr (payload_text p)"
    using Cons.prems(2) f by (auto simp: decodable_def intro: decode_payload_text)
  show ?case
    unfolding shell_v2_loop_frame [OF len inc] f
    using dec ih by (cases sep) (simp_all add: texts_Cons last_exit_Cons ids_distinct)
qed


lemma shell_v2_frames:
  assumes "\<forall>f \<in> set fs. length (snd f) < 2 ^ 32 \<and> decodable f"
    and "truncated tail"
    and "incoming conn = encode_frames fs @ tail"
  shows "fst (shell_v2 cmd None sep conn) =
     Inr (Some (if sep
                then Separate (texts (\<lambda>i. i = STDOUT) fs) (texts (\<lambda>i. i = STDERR) fs)
                       (last_exit 255 fs)
                else Merged (texts (\<lambda>i. i = STDOUT \<or> i = STDERR) fs) (last_exit 255 fs)))"
proof -
  have "incoming (conn_send (lit ''shell,v2:'' @ cmd) conn) = encode_frames fs @ tail"
    using assms(3) by (simp add: conn_send_def)
  then show ?thesis
    using assms(1,2)
    by (simp add: shell_v2_def Let_def shell_v2_loop_frames [where tail = tail and fs = fs])
qed

lemma decode_utf8_Nil: "decode_utf8 [] = Inr []"
  by (simp add: decode_utf8.simps)

lemma decode_utf8_ascii_Cons:
  "b < 0x80 \<Longrightarrow> decode_utf8 (b # bs) = (case decode_utf8 bs of Inl e \<Rightarrow> Inl e | Inr s \<Rightarrow> Inr (unat b # s))"
  by (subst decode_utf8.simps) simp

lemma decode_ascii:
  "\<forall>b \<in> set bs. b < 0x80 \<Longrightarrow> decode_utf8 bs = Inr (map unat bs)"
  by (induction bs) (simp_all add: decode_utf8_Nil decode_utf8_ascii_Cons)




text \<open>The first text frame whose payload does not decode ends the loop with a raise.\<close>

lemma decode_utf8_error: "decode_utf8 bs = Inl e \<Longrightarrow> e = UnicodeDecodeError"
proof (induction bs arbitrary: e rule: decode_utf8.induct)
  case (1 bs)
  from "1.prems" show ?case
    by (subst (asm) decode_utf8.simps)
       (auto split: if_splits option.splits sum.splits dest: "1.IH")
qed

lemma undecodable_frame:
  assumes "\<not> decodable (i, p)"
  shows "(unat i = STDOUT \<or> unat i = STDERR) \<and> decode_utf8 p = Inl UnicodeDecodeError"
proof -
  from assms have t: "unat i = STDOUT \<or> unat i = STDERR" and "isl (decode_utf8 p)"
    by (auto simp: decodable_def)
  then obtain e where "decode_utf8 p = Inl e" by (cases "decode_utf8 p") auto
  with decode_utf8_error [of p e] t show ?thesis by simp
qed

lemma shell_v2_loop_raises:
  assumes "\<forall>f \<in> set good. length (snd f) < 2 ^ 32 \<and> decodable f"
    and "length (snd f) < 2 ^ 32" and "\<not> decodable f"
    and "incoming conn = encode_frames (good @ f # rest) @ tail"
  shows "shell_v2_loop sep (out, so, se, ec) conn
           = (Inl UnicodeDecodeError, conn\<lparr>incoming := encode_frames rest @ tail\<rparr>)"
  using assms(1,4)
proof (induction good arbitrary: out so se ec conn)
  case Nil
  obtain i p where f: "f = (i, p)" by (cases f)
  have len: "length p < 2 ^ 32" using assms(2) f by simp
  have inc: "incoming conn = encode_frame (i, p) @ (encode_frames rest @ tail)"
    using Nil.prems(2) f by (simp add: encode_frames_Cons)
  note u = undecodable_frame [OF assms(3) [unfolded f]]
  show ?case
    unfolding shell_v2_loop_frame [OF len inc]
    using u by (cases sep) (auto simp: ids_distinct)
next
  case (Cons g good)
  obtain i p where g: "g = (i, p)" by (cases g)
  have len: "length p < 2 ^ 32" using Cons.prems(1) g by simp
  have inc: "incoming conn = encode_frame (i, p) @ (encode_frames (good @ f # rest) @ tail)"
    using Cons.prems(2) g by (simp add: encode_frames_Cons)
  let ?c = "conn\<lparr>incoming := encode_frames (good @ f # rest) @ tail\<rparr>"
  have ih: "\<And>out so se ec. shell_v2_loop sep (out, so, se, ec) ?c
           = (Inl UnicodeDecodeError, conn\<lparr>incoming := encode_frames rest @ tail\<rparr>)"
    using Cons.IH [of ?c] Cons.prems(1) by simp
  have dec: "unat i = STDOUT \<or> unat i = STDERR \<Longrightarrow> decode_utf8 p = Inr (payload_text p)"
    using Cons.prems(1) g by (auto simp: decodable_def intro: decode_payload_text)
  show ?case
    unfolding shell_v2_loop_frame [OF len inc]
    using dec ih by (cases sep) (simp_all add: ids_distinct)
qed

section \<open>Frames the loop ignores\<close>

lemma texts_append: "texts P (fs1 @ fs2) = texts P fs1 @ texts P fs2"
  by (simp add: texts_def)

lemma texts_skip: "\<not> P (unat i) \<Longrightarrow> texts P (fs1 @ (i, p) # fs2) = texts P (fs1 @ fs2)"
  by (simp add: texts_def)

lemma last_exit_skip:
  "unat i \<noteq> EXIT \<Longrightarrow> last_exit ec (fs1 @ (i, p) # fs2) = last_exit ec (fs1 @ fs2)"
  by (simp add: last_exit_def)

lemma ignored_ids:
  assumes "unat i = STDIN \<or> unat i = CLOSE_STDIN \<or> unat i = WINDOW_SIZE_CHANGE \<or> unat i = INVALID"
  shows "unat i \<noteq> STDOUT" "unat i \<noteq> STDERR" "unat i \<noteq> EXIT"
  using assms
  by (auto simp: STDIN_def STDOUT_def STDERR_def EXIT_def CLOSE_STDIN_def
      WINDOW_SIZE_CHANGE_def INVALID_def)

lemma decodable_ascii:
  "\<forall>b \<in> set bs. b < 0x80 \<Longrightarrow> decodable (i, bs)"
  by (simp add: decodable_def decode_ascii)

lemma payload_text_ascii:
  "\<forall>b \<in> set bs. b < 0x80 \<Longrightarrow> payload_text bs = map unat bs"
  by (simp add: payload_text_def decode_ascii)

text \<open>
  C3, as amended. A complete frame whose id is STDIN (0), CLOSE_STDIN (4),
  WINDOW_SIZE_CHANGE (5) or INVALID (255) is read in full and dropped: wherever it stands
  in the stream (so also after an EXIT frame), the call ends with the accumulators and the
  exit code that the other frames alone produce, with the whole stream consumed, and the
  frame raises nothing. The loop ends in two ways only: at a short or absent read, with
  every complete frame processed (second part), or with \<open>UnicodeDecodeError\<close> at the first
  STDOUT or STDERR frame whose payload is not valid UTF-8, the rest of the stream unread
  (third part). No frame id ends it.
\<close>

theorem ignored_frames_are_drained:
  "(\<forall>pre i p post tail conn sep out so se ec.
      (unat i = STDIN \<or> unat i = CLOSE_STDIN \<or> unat i = WINDOW_SIZE_CHANGE \<or> unat i = INVALID)
      \<and> length p < 2 ^ 32
      \<and> (\<forall>f \<in> set (pre @ post). length (snd f) < 2 ^ 32 \<and> decodable f)
      \<and> truncated tail
      \<and> incoming conn = encode_frames (pre @ (i, p) # post) @ tail
      \<longrightarrow> shell_v2_loop sep (out, so, se, ec) conn =
            (Inr (if sep
                  then (out, so @ texts (\<lambda>i. i = STDOUT) (pre @ post),
                        se @ texts (\<lambda>i. i = STDERR) (pre @ post), last_exit ec (pre @ post))
                  else (out @ texts (\<lambda>i. i = STDOUT \<or> i = STDERR) (pre @ post), so, se,
                        last_exit ec (pre @ post))),
             conn\<lparr>incoming := []\<rparr>))
   \<and> (\<forall>fs tail conn sep out so se ec.
      (\<forall>f \<in> set fs. length (snd f) < 2 ^ 32 \<and> decodable f)
      \<and> truncated tail
      \<and> incoming conn = encode_frames fs @ tail
      \<longrightarrow> shell_v2_loop sep (out, so, se, ec) conn =
            (Inr (if sep
                  then (out, so @ texts (\<lambda>i. i = STDOUT) fs,
                        se @ texts (\<lambda>i. i = STDERR) fs, last_exit ec fs)
                  else (out @ texts (\<lambda>i. i = STDOUT \<or> i = STDERR) fs, so, se,
                        last_exit ec fs)),
             conn\<lparr>incoming := []\<rparr>))
   \<and> (\<forall>good f rest tail conn sep out so se ec.
      (\<forall>g \<in> set good. length (snd g) < 2 ^ 32 \<and> decodable g)
      \<and> length (snd f) < 2 ^ 32 \<and> \<not> decodable f
      \<and> incoming conn = encode_frames (good @ f # rest) @ tail
      \<longrightarrow> shell_v2_loop sep (out, so, se, ec) conn
            = (Inl UnicodeDecodeError, conn\<lparr>incoming := encode_frames rest @ tail\<rparr>))"
proof (intro conjI allI impI)
  fix pre post :: "frame list" and i :: byte and p tail :: "byte list" and conn :: connection
    and sep :: bool and out so se :: str and ec :: nat
  assume h: "(unat i = STDIN \<or> unat i = CLOSE_STDIN \<or> unat i = WINDOW_SIZE_CHANGE \<or> unat i = INVALID)
      \<and> length p < 2 ^ 32
      \<and> (\<forall>f \<in> set (pre @ post). length (snd f) < 2 ^ 32 \<and> decodable f)
      \<and> truncated tail
      \<and> incoming conn = encode_frames (pre @ (i, p) # post) @ tail"
  then have ids: "unat i \<noteq> STDOUT" "unat i \<noteq> STDERR" "unat i \<noteq> EXIT"
    using ignored_ids [of i] by blast+
  have d: "decodable (i, p)" using ids by (simp add: decodable_def)
  have len: "\<forall>f \<in> set (pre @ (i, p) # post). length (snd f) < 2 ^ 32"
    and dec: "\<forall>f \<in> set (pre @ (i, p) # post). decodable f"
    using h d by auto
  from h have t: "truncated tail"
    and inc: "incoming conn = encode_frames (pre @ (i, p) # post) @ tail" by simp_all
  show "shell_v2_loop sep (out, so, se, ec) conn =
            (Inr (if sep
                  then (out, so @ texts (\<lambda>i. i = STDOUT) (pre @ post),
                        se @ texts (\<lambda>i. i = STDERR) (pre @ post), last_exit ec (pre @ post))
                  else (out @ texts (\<lambda>i. i = STDOUT \<or> i = STDERR) (pre @ post), so, se,
                        last_exit ec (pre @ post))),
             conn\<lparr>incoming := []\<rparr>)"
    unfolding shell_v2_loop_frames [OF len dec t inc]
    using ids by (simp add: texts_skip last_exit_skip)
next
  fix fs :: "frame list" and tail :: "byte list" and conn :: connection
    and sep :: bool and out so se :: str and ec :: nat
  assume h: "(\<forall>f \<in> set fs. length (snd f) < 2 ^ 32 \<and> decodable f)
      \<and> truncated tail \<and> incoming conn = encode_frames fs @ tail"
  then have len: "\<forall>f \<in> set fs. length (snd f) < 2 ^ 32" and dec: "\<forall>f \<in> set fs. decodable f"
    and t: "truncated tail" and inc: "incoming conn = encode_frames fs @ tail"
    by simp_all
  show "shell_v2_loop sep (out, so, se, ec) conn =
            (Inr (if sep
                  then (out, so @ texts (\<lambda>i. i = STDOUT) fs,
                        se @ texts (\<lambda>i. i = STDERR) fs, last_exit ec fs)
                  else (out @ texts (\<lambda>i. i = STDOUT \<or> i = STDERR) fs, so, se,
                        last_exit ec fs)),
             conn\<lparr>incoming := []\<rparr>)"
    by (rule shell_v2_loop_frames [OF len dec t inc])
next
  fix good rest :: "frame list" and f :: frame and tail :: "byte list" and conn :: connection
    and sep :: bool and out so se :: str and ec :: nat
  assume h: "(\<forall>g \<in> set good. length (snd g) < 2 ^ 32 \<and> decodable g)
      \<and> length (snd f) < 2 ^ 32 \<and> \<not> decodable f
      \<and> incoming conn = encode_frames (good @ f # rest) @ tail"
  then show "shell_v2_loop sep (out, so, se, ec) conn
            = (Inl UnicodeDecodeError, conn\<lparr>incoming := encode_frames rest @ tail\<rparr>)"
    using shell_v2_loop_raises [of good f conn rest tail sep out so se ec] by blast
qed

theorem ignored_frames_are_drained_witness:
  "unat (5 :: byte) = WINDOW_SIZE_CHANGE
   \<and> length [1, 2, 3 :: byte] < 2 ^ 32
   \<and> length [7 :: byte] < 2 ^ 32 \<and> decodable (3, [7])
   \<and> length (ascii ''x'') < 2 ^ 32 \<and> decodable (1, ascii ''x'')
   \<and> truncated [2, 9]
   \<and> incoming (fresh (encode_frames ([(3, [7])] @ (5, [1, 2, 3]) # [(1, ascii ''x'')]) @ [2, 9]))
       = encode_frames ([(3, [7])] @ (5, [1, 2, 3]) # [(1, ascii ''x'')]) @ [2, 9]
   \<and> shell_v2_loop False (lit ''a'', [], [], 255)
         (fresh (encode_frames ([(3, [7])] @ (5, [1, 2, 3]) # [(1, ascii ''x'')]) @ [2, 9]))
       = (Inr (lit ''ax'', [], [], 7), fresh [])"
proof -
  let ?fs1 = "[(3, [7])] :: frame list"
  let ?fs2 = "[(1, ascii ''x'')] :: frame list"
  let ?conn = "fresh (encode_frames (?fs1 @ (5, [1, 2, 3]) # ?fs2) @ [2, 9])"
  have i: "unat (5 :: byte) = WINDOW_SIZE_CHANGE" by (simp add: WINDOW_SIZE_CHANGE_def)
  have l: "length [1, 2, 3 :: byte] < 2 ^ 32" by simp
  have d1: "length [7 :: byte] < 2 ^ 32 \<and> decodable (3, [7])"
    by (simp add: decodable_def STDOUT_def STDERR_def)
  have d2: "length (ascii ''x'') < 2 ^ 32 \<and> decodable (1, ascii ''x'')"
    by (simp add: decodable_ascii ascii_def)
  have t: "truncated [2, 9]" by (simp add: truncated_def)
  have inc: "incoming ?conn = encode_frames (?fs1 @ (5, [1, 2, 3]) # ?fs2) @ [2, 9]"
    by (simp add: fresh_def)
  have a: "\<forall>f \<in> set (?fs1 @ ?fs2). length (snd f) < 2 ^ 32 \<and> decodable f"
    using d1 d2 by simp
  have tx: "texts (\<lambda>i. i = STDOUT \<or> i = STDERR) (?fs1 @ ?fs2) = lit ''x''"
    by (simp add: texts_def STDOUT_def STDERR_def payload_text_ascii ascii_def lit_def)
  have ex: "last_exit 255 (?fs1 @ ?fs2) = 7"
    by (simp add: last_exit_def EXIT_def)
  note r = ignored_frames_are_drained [THEN conjunct1, rule_format, where i = 5 and p = "[1, 2, 3]" and pre = ?fs1
      and post = ?fs2 and tail = "[2, 9]" and conn = ?conn and sep = False
      and out = "lit ''a''" and so = "[]" and se = "[]" and ec = 255]
  have prem: "(unat (5 :: byte) = STDIN \<or> unat (5 :: byte) = CLOSE_STDIN
        \<or> unat (5 :: byte) = WINDOW_SIZE_CHANGE \<or> unat (5 :: byte) = INVALID)
      \<and> length [1, 2, 3 :: byte] < 2 ^ 32
      \<and> (\<forall>f \<in> set (?fs1 @ ?fs2). length (snd f) < 2 ^ 32 \<and> decodable f)
      \<and> truncated [2, 9]
      \<and> incoming ?conn = encode_frames (?fs1 @ (5, [1, 2, 3]) # ?fs2) @ [2, 9]"
    using i l a t inc by blast
  have "shell_v2_loop False (lit ''a'', [], [], 255) ?conn =
            (Inr (if False
                  then (lit ''a'', [] @ texts (\<lambda>i. i = STDOUT) (?fs1 @ ?fs2),
                        [] @ texts (\<lambda>i. i = STDERR) (?fs1 @ ?fs2), last_exit 255 (?fs1 @ ?fs2))
                  else (lit ''a'' @ texts (\<lambda>i. i = STDOUT \<or> i = STDERR) (?fs1 @ ?fs2), [], [],
                        last_exit 255 (?fs1 @ ?fs2))),
             ?conn\<lparr>incoming := []\<rparr>)"
    by (rule r [OF prem])
  then have "shell_v2_loop False (lit ''a'', [], [], 255) ?conn = (Inr (lit ''ax'', [], [], 7), fresh [])"
    by (simp only: tx ex) (simp add: fresh_def lit_def)
  then show ?thesis using i l d1 d2 t inc by blast
qed

text \<open>
  C3 as stated fails: the loop also ends, with no short read, when a payload does not
  decode. A STDOUT frame with payload \<open>0xFF\<close> ends it with a raise and leaves the complete
  frame that follows unread.
\<close>

theorem undecodable_frame_ends_loop_counterexample:
  "\<not> truncated (encode_frame (5, [1, 2, 3]))
   \<and> shell_v2_loop False ([], [], [], 255)
         (fresh (encode_frame (1, [0xFF]) @ encode_frame (5, [1, 2, 3])))
       = (Inl UnicodeDecodeError, fresh (encode_frame (5, [1, 2, 3])))"
proof -
  have l: "length [0xFF :: byte] < 2 ^ 32" by simp
  have d: "decode_utf8 [0xFF] = Inl UnicodeDecodeError"
    by (simp add: decode_utf8.simps)
  have i: "incoming (fresh (encode_frame (1, [0xFF]) @ encode_frame (5, [1, 2, 3])))
      = encode_frame (1, [0xFF]) @ encode_frame (5, [1, 2, 3])"
    by (simp add: fresh_def)
  have r: "shell_v2_loop False ([], [], [], 255)
         (fresh (encode_frame (1, [0xFF]) @ encode_frame (5, [1, 2, 3])))
       = (Inl UnicodeDecodeError, fresh (encode_frame (5, [1, 2, 3])))"
    unfolding shell_v2_loop_frame [OF l i] by (simp add: d STDOUT_def fresh_def)
  have "\<not> truncated (encode_frame (5, [1, 2, 3]))"
    by (simp add: truncated_def encode_frame_def le32_def)
  with r show ?thesis by simp
qed

section \<open>Streams that end inside a frame\<close>

lemma byte_of_nat_low: "(of_nat (unat (a::byte) + 256 * y) :: byte) = a"
  by (rule of_nat_eq [THEN iffD2], rule exI [of _ y]) simp

lemma byte_div_256: "(unat (a::byte) + 256 * y) div 256 = y"
  using unsigned_less [of a, where ?'a = nat] by simp

lemma from_bytes_4_bound:
  "int_from_bytes_little [a, b, c, d] < 2 ^ 32"
  using unsigned_less [of a, where ?'a = nat] unsigned_less [of b, where ?'a = nat] unsigned_less [of c, where ?'a = nat] unsigned_less [of d, where ?'a = nat] by simp

lemma le32_from_bytes: "le32 (int_from_bytes_little [a, b, c, d]) = [a, b, c, d]"
proof -
  let ?n = "int_from_bytes_little [a, b, c, d]"
  have n: "?n = unat a + 256 * (unat b + 256 * (unat c + 256 * unat d))" by simp
  have d1: "?n div 256 = unat b + 256 * (unat c + 256 * unat d)"
    unfolding n by (rule byte_div_256)
  have d2: "?n div 65536 = unat c + 256 * unat d"
    using byte_div_256 [of b "unat c + 256 * unat d"] d1 div_mult2_eq [of ?n 256 256] by simp
  have d3: "?n div 16777216 = unat d"
    using byte_div_256 [of c "unat d"] d2 div_mult2_eq [of ?n 65536 256] by simp
  have "(of_nat ?n :: byte) = a" unfolding n by (rule byte_of_nat_low)
  moreover have "(of_nat (?n div 256) :: byte) = b" unfolding d1 by (rule byte_of_nat_low)
  moreover have "(of_nat (?n div 65536) :: byte) = c" unfolding d2 by (rule byte_of_nat_low)
  moreover have "(of_nat (?n div 16777216) :: byte) = d" unfolding d3 by simp
  ultimately show ?thesis unfolding le32_def by simp
qed


lemma list4: "length h = 4 \<Longrightarrow> \<exists>a b c d. h = [a, b, c, d]"
  by (cases h; simp; cases "tl h"; simp; cases "tl (tl h)"; simp; cases "tl (tl (tl h))"; simp)

lemma not_truncated_frame:
  assumes "\<not> truncated bs"
  shows "\<exists>i p rest. bs = encode_frame (i, p) @ rest \<and> length p < 2 ^ 32"
proof -
  from assms obtain i tl0 where bs: "bs = i # tl0"
    by (cases bs) (auto simp: truncated_def)
  define h where "h = take 4 tl0"
  define n where "n = int_from_bytes_little h"
  define body where "body = drop 4 tl0"
  from assms bs have len: "4 \<le> length tl0" and pay: "n \<le> length tl0 - 4"
    by (auto simp: truncated_def h_def n_def)
  have hl: "length h = 4" using len by (simp add: h_def)
  then obtain a b c d where h: "h = [a, b, c, d]" using list4 by blast
  have nb: "n < 2 ^ 32" unfolding n_def h by (rule from_bytes_4_bound)
  have le: "le32 n = h" unfolding n_def h by (rule le32_from_bytes)
  have tl0: "tl0 = h @ body" by (simp add: h_def body_def)
  have bl: "n \<le> length body" using pay by (simp add: body_def)
  have body: "body = take n body @ drop n body" by simp
  have "bs = encode_frame (i, take n body) @ drop n body"
    using bl by (simp add: encode_frame_def bs tl0 le min_def)
  moreover have "length (take n body) < 2 ^ 32" using nb bl by simp
  ultimately show ?thesis by blast
qed

lemma length_encode_frame: "length (encode_frame f) = 5 + length (snd f)"
  by (simp add: encode_frame_def length_le32)

text \<open>Every byte stream is a list of complete frames followed by a truncated rest.\<close>

lemma stream_decomposition:
  "\<exists>fs tail. bs = encode_frames fs @ tail \<and> truncated tail
      \<and> (\<forall>f \<in> set fs. length (snd f) < 2 ^ 32)"
proof (induction bs rule: length_induct)
  case (1 bs)
  show ?case
  proof (cases "truncated bs")
    case True
    then have "bs = encode_frames [] @ bs \<and> truncated bs
        \<and> (\<forall>f \<in> set ([] :: frame list). length (snd f) < 2 ^ 32)"
      by (simp add: encode_frames_def)
    then show ?thesis by blast
  next
    case False
    then obtain i p rest where f: "bs = encode_frame (i, p) @ rest" "length p < 2 ^ 32"
      using not_truncated_frame by blast
    then have "length rest < length bs" by (simp add: length_encode_frame)
    with 1 obtain fs tail where r: "rest = encode_frames fs @ tail" "truncated tail"
        "\<forall>f \<in> set fs. length (snd f) < 2 ^ 32"
      by blast
    have "bs = encode_frames ((i, p) # fs) @ tail \<and> truncated tail
        \<and> (\<forall>f \<in> set ((i, p) # fs). length (snd f) < 2 ^ 32)"
      using f r by (simp add: encode_frames_Cons)
    then show ?thesis by blast
  qed
qed

lemma loop_keeps_closed:
  "is_closed (snd (shell_v2_loop sep (out, so, se, ec) conn)) = is_closed conn"
proof (induction "length (incoming conn)" arbitrary: out so se ec conn rule: less_induct)
  case less
  show ?case
  proof (cases "truncated (incoming conn)")
    case True
    then show ?thesis by (simp add: shell_v2_loop_truncated)
  next
    case False
    then obtain i p rest where f: "incoming conn = encode_frame (i, p) @ rest" "length p < 2 ^ 32"
      using not_truncated_frame by blast
    let ?c = "conn\<lparr>incoming := rest\<rparr>"
    have "length (incoming ?c) < length (incoming conn)"
      using f by (simp add: length_encode_frame)
    then have ih: "\<And>out so se ec. is_closed (snd (shell_v2_loop sep (out, so, se, ec) ?c)) = is_closed conn"
      using less [of ?c] by simp
    show ?thesis
      unfolding shell_v2_loop_frame [OF f(2) f(1)]
      using ih by (cases sep) (simp_all split: sum.splits)
  qed
qed

text \<open>
  C2, as amended. Every byte stream is a list of complete frames followed by a rest that
  ends inside a frame (nothing where the id is expected, fewer than four length bytes, or
  fewer payload bytes than declared). When the payloads of the complete STDOUT and STDERR
  frames are valid UTF-8, \<open>shell_v2\<close> returns normally with the text of all complete
  frames, and with exit code 255 when none of the complete frames is an EXIT frame.
\<close>

theorem truncated_stream_returns_partial_output:
  "(\<forall>bs. \<exists>fs tail. bs = encode_frames fs @ tail \<and> truncated tail
        \<and> (\<forall>f \<in> set fs. length (snd f) < 2 ^ 32))
   \<and> (\<forall>fs tail conn cmd sep.
        incoming conn = encode_frames fs @ tail \<and> truncated tail
        \<and> (\<forall>f \<in> set fs. length (snd f) < 2 ^ 32 \<and> decodable f)
        \<longrightarrow> fst (shell_v2 cmd None sep conn)
              = Inr (Some (if sep
                           then Separate (texts (\<lambda>i. i = STDOUT) fs)
                                  (texts (\<lambda>i. i = STDERR) fs) (last_exit 255 fs)
                           else Merged (texts (\<lambda>i. i = STDOUT \<or> i = STDERR) fs)
                                  (last_exit 255 fs)))
          \<and> ((\<forall>f \<in> set fs. unat (fst f) \<noteq> EXIT) \<longrightarrow> last_exit 255 fs = 255))"
proof (intro conjI allI impI)
  fix bs :: "byte list"
  show "\<exists>fs tail. bs = encode_frames fs @ tail \<and> truncated tail
        \<and> (\<forall>f \<in> set fs. length (snd f) < 2 ^ 32)"
    by (rule stream_decomposition)
next
  fix fs :: "frame list" and tail :: "byte list" and conn :: connection
    and cmd :: str and sep :: bool
  assume h: "incoming conn = encode_frames fs @ tail \<and> truncated tail
        \<and> (\<forall>f \<in> set fs. length (snd f) < 2 ^ 32 \<and> decodable f)"
  then show "fst (shell_v2 cmd None sep conn)
              = Inr (Some (if sep
                           then Separate (texts (\<lambda>i. i = STDOUT) fs)
                                  (texts (\<lambda>i. i = STDERR) fs) (last_exit 255 fs)
                           else Merged (texts (\<lambda>i. i = STDOUT \<or> i = STDERR) fs)
                                  (last_exit 255 fs)))"
    using shell_v2_frames [of fs tail conn cmd sep] by blast
next
  fix fs :: "frame list"
  assume "\<forall>f \<in> set fs. unat (fst f) \<noteq> EXIT"
  then have "filter (\<lambda>f. unat (fst f) = EXIT) fs = []"
    by (simp add: filter_empty_conv)
  then show "last_exit 255 fs = 255" by (simp add: last_exit_def)
qed

theorem truncated_stream_returns_partial_output_witness:
  "incoming (fresh (encode_frames [(1, ascii ''ok'')] @ [1, 10, 0, 0, 0, 65, 65, 65]))
       = encode_frames [(1, ascii ''ok'')] @ [1, 10, 0, 0, 0, 65, 65, 65]
   \<and> truncated [1, 10, 0, 0, 0, 65, 65, 65]
   \<and> length (ascii ''ok'') < 2 ^ 32 \<and> decodable (1, ascii ''ok'')
   \<and> fst (shell_v2 [] None False
             (fresh (encode_frames [(1, ascii ''ok'')] @ [1, 10, 0, 0, 0, 65, 65, 65])))
       = Inr (Some (Merged (lit ''ok'') 255))"
proof -
  let ?fs = "[(1, ascii ''ok'')] :: frame list"
  let ?tail = "[1, 10, 0, 0, 0, 65, 65, 65] :: byte list"
  have i: "incoming (fresh (encode_frames ?fs @ ?tail)) = encode_frames ?fs @ ?tail"
    by (simp add: fresh_def)
  have t: "truncated ?tail" by (simp add: truncated_def)
  have a: "length (ascii ''ok'') < 2 ^ 32 \<and> decodable (1, ascii ''ok'')"
    by (simp add: decodable_def ascii_def STDOUT_def STDERR_def decode_utf8_ascii_Cons
        decode_utf8_Nil)
  have m: "texts (\<lambda>i. i = STDOUT \<or> i = STDERR) ?fs = lit ''ok''"
    by (simp add: texts_def payload_text_def ascii_def lit_def STDOUT_def STDERR_def
        decode_utf8_ascii_Cons decode_utf8_Nil)
  have e: "last_exit 255 ?fs = 255"
    by (simp add: last_exit_def EXIT_def)
  have "incoming (fresh (encode_frames ?fs @ ?tail)) = encode_frames ?fs @ ?tail
        \<and> truncated ?tail \<and> (\<forall>f \<in> set ?fs. length (snd f) < 2 ^ 32 \<and> decodable f)
      \<longrightarrow> fst (shell_v2 [] None False (fresh (encode_frames ?fs @ ?tail)))
            = Inr (Some (if False
                         then Separate (texts (\<lambda>i. i = STDOUT) ?fs)
                                (texts (\<lambda>i. i = STDERR) ?fs) (last_exit 255 ?fs)
                         else Merged (texts (\<lambda>i. i = STDOUT \<or> i = STDERR) ?fs)
                                (last_exit 255 ?fs)))"
    using truncated_stream_returns_partial_output by blast
  then have "fst (shell_v2 [] None False (fresh (encode_frames ?fs @ ?tail)))
       = Inr (Some (Merged (lit ''ok'') 255))"
    using i t a by (simp only: m e) simp
  then show ?thesis using i t a by simp
qed

text \<open>
  C2 as stated fails: a complete STDOUT frame whose payload is not UTF-8, followed by a
  frame that declares 10 bytes and delivers 3. The decoding of the first payload raises
  before the truncation is reached.
\<close>

theorem truncated_stream_counterexample:
  "truncated [1, 10, 0, 0, 0, 65, 65, 65]
   \<and> fst (shell_v2 [] None False
           (fresh (encode_frame (1, [0xFF]) @ [1, 10, 0, 0, 0, 65, 65, 65])))
       = Inl UnicodeDecodeError"
proof -
  have l: "length [0xFF :: byte] < 2 ^ 32" by simp
  have d: "decode_utf8 [0xFF] = Inl UnicodeDecodeError"
    by (simp add: decode_utf8.simps)
  define c where "c = conn_send (lit ''shell,v2:'' @ [])
             (fresh (encode_frame (1, [0xFF]) @ [1, 10, 0, 0, 0, 65, 65, 65]))"
  have i: "incoming c = encode_frame (1, [0xFF]) @ [1, 10, 0, 0, 0, 65, 65, 65]"
    by (simp add: c_def conn_send_def fresh_def)
  have r: "shell_v2_loop False ([], [], [], 255) c
        = (Inl UnicodeDecodeError, c\<lparr>incoming := [1, 10, 0, 0, 0, 65, 65, 65]\<rparr>)"
    unfolding shell_v2_loop_frame [OF l i] by (simp add: d STDOUT_def)
  have "fst (shell_v2 [] None False
           (fresh (encode_frame (1, [0xFF]) @ [1, 10, 0, 0, 0, 65, 65, 65])))
       = Inl UnicodeDecodeError"
    using r [unfolded c_def] by (simp add: shell_v2_def Let_def)
  moreover have "truncated [1, 10, 0, 0, 0, 65, 65, 65]" by (simp add: truncated_def)
  ultimately show ?thesis by simp
qed

section \<open>Closing the connection\<close>

lemma shell_v2_keeps_closed:
  "is_closed (snd (shell_v2 cmd None sep conn)) = is_closed conn"
proof -
  have "is_closed (snd (shell_v2_loop sep ([], [], [], 255) (conn_send (lit ''shell,v2:'' @ cmd) conn)))
          = is_closed conn"
    by (simp add: loop_keeps_closed conn_send_def)
  then show ?thesis
    by (auto simp: shell_v2_def Let_def split: prod.splits sum.splits)
qed

text \<open>
  C4 fails on the code. \<open>shell_v2\<close> without a handler never closes the connection: it is
  as open after the call as before, on the returning path and on the path where decoding
  raises, whatever the stream. \<open>shell\<close> without a handler closes it once \<open>read_all\<close> has
  returned.
\<close>

theorem shell_v2_never_closes:
  "\<not> is_closed (snd (shell_v2 cmd None sep (fresh bs)))
   \<and> is_closed (snd (shell cmd None (fresh bs)))"
proof -
  have "\<not> is_closed (snd (shell_v2 cmd None sep (fresh bs)))"
    by (simp add: shell_v2_keeps_closed fresh_def)
  moreover have "is_closed (snd (shell cmd None (fresh bs)))"
    by (simp add: shell_def Let_def conn_read_all_def conn_close_def split: sum.splits)
  ultimately show ?thesis by simp
qed

section \<open>Unimplemented operations\<close>

text \<open>
  C9 fails on the code. \<open>framebuffer()\<close> and \<open>logcat()\<close> raise \<open>TypeError\<close>, for every
  argument: the operand \<open>NotImplemented()\<close> of their \<open>raise\<close> is a call of a value that
  is not callable. No not-implemented error reaches the caller.
\<close>

theorem unimplemented_operations_raise_TypeError:
  "framebuffer = Inl TypeError \<and> logcat clear = Inl TypeError
   \<and> framebuffer \<noteq> Inl NotImplementedError \<and> logcat clear \<noteq> Inl NotImplementedError"
  by (simp add: framebuffer_def logcat_def raise_call_NotImplemented_def call_NotImplemented_def)

section \<open>Text helpers\<close>

lemma str_contains_sublist: "str_contains needle hay \<longleftrightarrow> sublist needle hay"
proof (induction hay)
  case Nil
  show ?case by simp
next
  case (Cons c cs)
  show ?case by (simp add: Cons sublist_Cons_right)
qed

section \<open>The reverse list\<close>

lemma reverses_loop_ok:
  "\<forall>line \<in> set lines. line \<noteq> [] \<longrightarrow> length (py_split line) = 3 \<Longrightarrow>
   reverses_loop lines acc
     = Inr (acc @ map (\<lambda>line. \<lparr>remote = py_split line ! 1, local_ = py_split line ! 2\<rparr>)
                   (filter (\<lambda>line. line \<noteq> []) lines))"
proof (induction lines arbitrary: acc)
  case Nil
  show ?case by simp
next
  case (Cons line lines)
  show ?case
  proof (cases "line = []")
    case True
    then show ?thesis using Cons by simp
  next
    case False
    then have "length (py_split line) = 3" using Cons.prems by simp
    then obtain a b c where t: "py_split line = [a, b, c]"
      by (auto simp: length_Suc_conv numeral_3_eq_3)
    show ?thesis using False Cons t by simp
  qed
qed

lemma reverses_loop_bad:
  "\<exists>line \<in> set lines. line \<noteq> [] \<and> length (py_split line) \<noteq> 3 \<Longrightarrow>
   reverses_loop lines acc = Inl ValueError"
proof (induction lines arbitrary: acc)
  case Nil
  then show ?case by simp
next
  case (Cons line lines)
  show ?case
  proof (cases "line = []")
    case True
    then show ?thesis using Cons by simp
  next
    case False
    show ?thesis
    proof (cases "length (py_split line) = 3")
      case True
      then obtain a b c where t: "py_split line = [a, b, c]"
        by (auto simp: length_Suc_conv numeral_3_eq_3)
      have "\<exists>l \<in> set lines. l \<noteq> [] \<and> length (py_split l) \<noteq> 3"
        using Cons.prems True by auto
      then show ?thesis using False t Cons.IH by simp
    next
      case n3: False
      then show ?thesis using False
        by (auto split: list.splits)
    qed
  qed
qed

text \<open>
  C6. \<open>list_reverses\<close> sends \<open>reverse:list-forward\<close> and reads one framed response. Empty
  lines are skipped; when every non-empty line splits into exactly three tokens, the result
  lists, in input order, the second token as \<open>remote\<close> and the third as \<open>local\<close> of each
  non-empty line (the first token is dropped); when some non-empty line has another number
  of tokens, the call raises \<open>ValueError\<close>.
\<close>

theorem list_reverses_parses_lines:
  assumes "receive (conn_send (lit ''reverse:list-forward'') conn0) = (Inr result, conn1)"
  shows "fst (list_reverses receive conn0) =
     (if \<forall>line \<in> set (split_on 10 result). line \<noteq> [] \<longrightarrow> length (py_split line) = 3
      then Inr (map (\<lambda>line. \<lparr>remote = py_split line ! 1, local_ = py_split line ! 2\<rparr>)
                 (filter (\<lambda>line. line \<noteq> []) (split_on 10 result)))
      else Inl ValueError)"
proof (cases "\<forall>line \<in> set (split_on 10 result). line \<noteq> [] \<longrightarrow> length (py_split line) = 3")
  case True
  then show ?thesis
    using assms reverses_loop_ok [of "split_on 10 result" "[]"]
    by (simp add: list_reverses_def Let_def)
next
  case False
  then have "\<exists>line \<in> set (split_on 10 result). line \<noteq> [] \<and> length (py_split line) \<noteq> 3"
    by blast
  then have "reverses_loop (split_on 10 result) [] = Inl ValueError"
    by (rule reverses_loop_bad)
  then show ?thesis
    using assms False by (simp add: list_reverses_def Let_def)
qed

theorem list_reverses_parses_lines_witness:
  "respond (lit ''emu tcp:1 tcp:2'' @ [10] @ lit ''emu tcp:3 tcp:4'' @ [10])
      (conn_send (lit ''reverse:list-forward'') (fresh []))
     = (Inr (lit ''emu tcp:1 tcp:2'' @ [10] @ lit ''emu tcp:3 tcp:4'' @ [10]),
        conn_send (lit ''reverse:list-forward'') (fresh []))
   \<and> fst (list_reverses
            (respond (lit ''emu tcp:1 tcp:2'' @ [10] @ lit ''emu tcp:3 tcp:4'' @ [10]))
            (fresh []))
       = Inr [\<lparr>remote = lit ''tcp:1'', local_ = lit ''tcp:2''\<rparr>,
              \<lparr>remote = lit ''tcp:3'', local_ = lit ''tcp:4''\<rparr>]"
proof -
  let ?text = "lit ''emu tcp:1 tcp:2'' @ [10] @ lit ''emu tcp:3 tcp:4'' @ [10]"
  have r: "respond ?text (conn_send (lit ''reverse:list-forward'') (fresh []))
     = (Inr ?text, conn_send (lit ''reverse:list-forward'') (fresh []))"
    by (simp add: respond_def)
  have sp: "split_on 10 ?text = [lit ''emu tcp:1 tcp:2'', lit ''emu tcp:3 tcp:4'', []]"
    by (simp add: lit_def)
  have t1: "py_split (lit ''emu tcp:1 tcp:2'') = [lit ''emu'', lit ''tcp:1'', lit ''tcp:2'']"
    by (simp add: lit_def py_split_def py_isspace_def)
  have t2: "py_split (lit ''emu tcp:3 tcp:4'') = [lit ''emu'', lit ''tcp:3'', lit ''tcp:4'']"
    by (simp add: lit_def py_split_def py_isspace_def)
  have ne: "lit ''emu tcp:1 tcp:2'' \<noteq> []" "lit ''emu tcp:3 tcp:4'' \<noteq> []"
    by (simp_all add: lit_def)
  have "fst (list_reverses (respond ?text) (fresh []))
       = Inr [\<lparr>remote = lit ''tcp:1'', local_ = lit ''tcp:2''\<rparr>,
              \<lparr>remote = lit ''tcp:3'', local_ = lit ''tcp:4''\<rparr>]"
    unfolding list_reverses_parses_lines [of "respond ?text" "fresh []" ?text
        "conn_send (lit ''reverse:list-forward'') (fresh [])", OF r] sp
    using ne by (simp add: t1 t2)
  then show ?thesis using r by simp
qed

section \<open>The feature pattern\<close>

lemma cr_dollar_simps:
  "cr_dollar [] = True"
  "cr_dollar (c # cs) \<longleftrightarrow> (c = 13 \<and> (cs = [] \<or> cs = [10])) \<or> (c = 10 \<and> cs = [])"
  by (auto simp: cr_dollar_def at_dollar_def)

text \<open>The lazy groups step over a character after which the rest cannot match.\<close>

lemma lazy_value_skip:
  "10 \<notin> set xs \<Longrightarrow> t \<noteq> [] \<Longrightarrow> t \<noteq> [10]
     \<Longrightarrow> lazy_value acc (xs @ t) = lazy_value (rev xs @ acc) t"
proof (induction xs arbitrary: acc)
  case Nil
  show ?case by simp
next
  case (Cons x xs)
  have "\<not> cr_dollar (x # xs @ t)"
    using Cons.prems by (auto simp: cr_dollar_simps append_eq_Cons_conv)
  then show ?case using Cons by simp
qed

lemma lazy_value_cr: "10 \<notin> set v \<Longrightarrow> lazy_value acc (v @ [13]) = Some (rev acc @ v)"
  using lazy_value_skip [of v "[13]" acc] by (simp add: cr_dollar_simps)

lemma lazy_value_plain:
  assumes "10 \<notin> set v" and "v = [] \<or> last v \<noteq> 13"
  shows "lazy_value acc v = Some (rev acc @ v)"
proof (cases v rule: rev_cases)
  case Nil
  then show ?thesis by (simp add: cr_dollar_simps)
next
  case (snoc ys z)
  then have z: "z \<noteq> 13" "z \<noteq> 10" and ys: "10 \<notin> set ys" using assms by auto
  have "lazy_value acc (ys @ [z]) = lazy_value (rev ys @ acc) [z]"
    using ys z by (intro lazy_value_skip) auto
  also have "\<dots> = Some (rev acc @ ys @ [z])"
    using z by (simp add: cr_dollar_simps)
  finally show ?thesis using snoc by simp
qed

lemma opt_value_other:
  "c \<noteq> 61 \<Longrightarrow> opt_value (c # cs) = (if cr_dollar (c # cs) then Some None else None)"
  by (simp add: opt_value_def)

lemma opt_value_Nil: "opt_value [] = Some None"
  by (simp add: opt_value_def cr_dollar_simps)

lemma lazy_name_skip:
  "61 \<notin> set xs \<Longrightarrow> 10 \<notin> set xs \<Longrightarrow> t \<noteq> [] \<Longrightarrow> t \<noteq> [10]
     \<Longrightarrow> lazy_name acc (xs @ t) = lazy_name (rev xs @ acc) t"
proof (induction xs arbitrary: acc)
  case Nil
  show ?case by simp
next
  case (Cons x xs)
  have "\<not> cr_dollar (x # xs @ t)"
    using Cons.prems by (auto simp: cr_dollar_simps append_eq_Cons_conv)
  then have "opt_value (x # xs @ t) = None"
    using Cons.prems by (simp add: opt_value_other)
  then show ?case using Cons by simp
qed

lemma lazy_name_cr:
  assumes "61 \<notin> set n" and "10 \<notin> set n"
  shows "lazy_name acc (n @ [13]) = Some (rev acc @ n, None)"
proof -
  have "opt_value [13] = Some None"
    by (simp add: opt_value_def cr_dollar_simps)
  then show ?thesis
    using lazy_name_skip [of n "[13]" acc] assms by simp
qed

lemma lazy_name_plain:
  assumes "61 \<notin> set n" and "10 \<notin> set n" and "n = [] \<or> last n \<noteq> 13"
  shows "lazy_name acc n = Some (rev acc @ n, None)"
proof (cases n rule: rev_cases)
  case Nil
  then show ?thesis by (simp add: opt_value_Nil)
next
  case (snoc ys z)
  then have z: "z \<noteq> 13" "z \<noteq> 10" "z \<noteq> 61" and ys: "61 \<notin> set ys" "10 \<notin> set ys"
    using assms by auto
  have "lazy_name acc (ys @ [z]) = lazy_name (rev ys @ acc) [z]"
    using ys z by (intro lazy_name_skip) auto
  also have "\<dots> = Some (rev acc @ ys @ [z], None)"
    using z by (simp add: opt_value_other opt_value_Nil cr_dollar_simps)
  finally show ?thesis using snoc by simp
qed

lemma lazy_name_value:
  assumes "61 \<notin> set n" and "10 \<notin> set n" and "lazy_value [] t = Some v"
  shows "lazy_name acc (n @ 61 # t) = Some (rev acc @ n, Some v)"
proof -
  have "opt_value (61 # t) = Some (Some v)"
    using assms(3) by (simp add: opt_value_def)
  then show ?thesis
    using lazy_name_skip [of n "61 # t" acc] assms(1,2) by simp
qed

lemma match_feature_prefix:
  "match_feature (lit ''feature:'' @ rest) = lazy_name [] rest"
  by (simp add: match_feature_def lit_def)

lemma features_loop_map_of:
  "features_loop lines m = m ++ map_of (rev (List.map_filter feature_entry lines))"
proof (induction lines arbitrary: m)
  case Nil
  show ?case by simp
next
  case (Cons line lines)
  show ?case
  proof (cases "match_feature line")
    case None
    then show ?thesis using Cons by (simp add: feature_entry_def)
  next
    case (Some g)
    obtain g1 g2 where g: "g = (g1, g2)" by (cases g)
    let ?v = "case g2 of None \<Rightarrow> PyTrue | Some v \<Rightarrow> PyStr v"
    have e: "feature_entry line = Some (g1, ?v)" using Some g by (simp add: feature_entry_def)
    have "features_loop (line # lines) m = features_loop lines (m(g1 \<mapsto> ?v))"
      using Some g by simp
    also have "\<dots> = m(g1 \<mapsto> ?v) ++ map_of (rev (List.map_filter feature_entry lines))"
      by (rule Cons)
    also have "\<dots> = m ++ map_of (rev (List.map_filter feature_entry (line # lines)))"
      by (simp add: e map_add_upd_left flip: map_add_assoc)
         (simp add: fun_eq_iff map_add_def split: option.splits)
    finally show ?thesis .
  qed
qed

lemma split_on_line:
  "sep \<notin> set l \<Longrightarrow> split_on sep (l @ sep # rest) = l # split_on sep rest"
  by (induction l) auto

lemma split_on_last: "sep \<notin> set l \<Longrightarrow> split_on sep l = [l]"
  by (induction l) auto

lemma split_on_lines:
  "\<forall>l \<in> set ls. sep \<notin> set l \<Longrightarrow> sep \<notin> set l_last
     \<Longrightarrow> split_on sep (concat (map (\<lambda>l. l @ [sep]) ls) @ l_last) = ls @ [l_last]"
  by (induction ls) (simp_all add: split_on_last split_on_line)

lemma list_features_decoded:
  assumes "decode_utf8 (incoming conn) = Inr result"
  shows "fst (list_features conn)
           = Inr (map_of (rev (List.map_filter feature_entry (split_on 10 result))))"
  using assms
  by (simp add: list_features_def shell_def Let_def conn_send_def conn_read_all_def
      features_loop_map_of)

lemma list_features_undecodable:
  assumes "isl (decode_utf8 (incoming conn))"
  shows "fst (list_features conn) = Inl UnicodeDecodeError"
proof -
  from assms obtain e where "decode_utf8 (incoming conn) = Inl e"
    by (cases "decode_utf8 (incoming conn)") auto
  moreover from this have "e = UnicodeDecodeError" by (rule decode_utf8_error)
  ultimately show ?thesis
    by (simp add: list_features_def shell_def Let_def conn_send_def conn_read_all_def)
qed

lemma map_of_last_wins:
  assumes "lines = before @ line # after" and "feature_entry line = Some (k, v)"
    and "\<forall>l \<in> set after. \<forall>v'. feature_entry l \<noteq> Some (k, v')"
  shows "map_of (rev (List.map_filter feature_entry lines)) k = Some v"
proof -
  have "k \<notin> fst ` set (List.map_filter feature_entry after)"
    using assms(3) by (auto simp: map_filter_def)
  then have n: "map_of (rev (List.map_filter feature_entry after)) k = None"
    by (simp add: map_of_eq_None_iff)
  have "List.map_filter feature_entry lines
      = List.map_filter feature_entry before @ (k, v) # List.map_filter feature_entry after"
    using assms(1,2) by (simp add: map_filter_def)
  then show ?thesis using n by (simp add: map_add_def)
qed

lemma map_of_no_line:
  assumes "\<forall>l \<in> set lines. \<forall>v. feature_entry l \<noteq> Some (k, v)"
  shows "map_of (rev (List.map_filter feature_entry lines)) k = None"
proof -
  have "k \<notin> fst ` set (List.map_filter feature_entry lines)"
    using assms by (auto simp: map_filter_def)
  then show ?thesis by (simp add: map_of_eq_None_iff)
qed

lemma features_example:
  "fst (list_features (fresh (ascii ''feature:foo'' @ [10] @ ascii ''feature:bar=2'' @ [10])))
     = Inr [lit ''foo'' \<mapsto> PyTrue, lit ''bar'' \<mapsto> PyStr (lit ''2'')]"
proof -
  let ?bs = "ascii ''feature:foo'' @ [10] @ ascii ''feature:bar=2'' @ [10]"
  have d: "decode_utf8 ?bs = Inr (lit ''feature:foo'' @ [10] @ lit ''feature:bar=2'' @ [10])"
    by (subst decode_ascii) (simp_all add: ascii_def lit_def)
  have sp: "split_on 10 (lit ''feature:foo'' @ [10] @ lit ''feature:bar=2'' @ [10])
      = [lit ''feature:'' @ lit ''foo'', lit ''feature:'' @ lit ''bar'' @ 61 # lit ''2'', []]"
    by (simp add: lit_def)
  have m1: "match_feature (lit ''feature:'' @ lit ''foo'') = Some (lit ''foo'', None)"
    unfolding match_feature_prefix by (rule lazy_name_plain [of "lit ''foo''" "[]", simplified]) (simp_all add: lit_def)
  have v: "lazy_value [] (lit ''2'') = Some (lit ''2'')"
    using lazy_value_plain [of "lit ''2''" "[]"] by (simp add: lit_def)
  have m2: "match_feature (lit ''feature:'' @ lit ''bar'' @ 61 # lit ''2'')
      = Some (lit ''bar'', Some (lit ''2''))"
    unfolding match_feature_prefix
    using lazy_name_value [of "lit ''bar''" "lit ''2''" "lit ''2''" "[]", OF _ _ v]
    by (simp add: lit_def)
  have m3: "match_feature [] = None"
    by (simp add: match_feature_def lit_def)
  show ?thesis
    by (simp add: list_features_def shell_def Let_def conn_send_def conn_read_all_def
        conn_close_def fresh_def d sp m1 m2 m3 del: append_assoc append.simps)
qed

lemma feature_entry_flag:
  assumes "61 \<notin> set name" and "10 \<notin> set name"
  shows "feature_entry (lit ''feature:'' @ name @ [13]) = Some (name, PyTrue)"
    and "name = [] \<or> last name \<noteq> 13 \<Longrightarrow> feature_entry (lit ''feature:'' @ name) = Some (name, PyTrue)"
  using assms lazy_name_cr [of name "[]"] lazy_name_plain [of name "[]"]
  by (simp_all add: feature_entry_def match_feature_prefix)

lemma feature_entry_value:
  assumes "61 \<notin> set name" and "10 \<notin> set name" and "10 \<notin> set v"
  shows "feature_entry (lit ''feature:'' @ name @ 61 # v @ [13]) = Some (name, PyStr v)"
    and "v = [] \<or> last v \<noteq> 13 \<Longrightarrow> feature_entry (lit ''feature:'' @ name @ 61 # v) = Some (name, PyStr v)"
proof -
  have "lazy_value [] (v @ [13]) = Some v"
    using assms(3) lazy_value_cr [of v "[]"] by simp
  then show "feature_entry (lit ''feature:'' @ name @ 61 # v @ [13]) = Some (name, PyStr v)"
    using assms(1,2) lazy_name_value [of name "v @ [13]" v "[]"]
    by (simp add: feature_entry_def match_feature_prefix)
  assume "v = [] \<or> last v \<noteq> 13"
  then have "lazy_value [] v = Some v"
    using assms(3) lazy_value_plain [of v "[]"] by simp
  then show "feature_entry (lit ''feature:'' @ name @ 61 # v) = Some (name, PyStr v)"
    using assms(1,2) lazy_name_value [of name v v "[]"]
    by (simp add: feature_entry_def match_feature_prefix)
qed

lemma feature_entry_other: "\<not> prefix (lit ''feature:'') line \<Longrightarrow> feature_entry line = None"
  by (simp add: feature_entry_def match_feature_def)

lemma list_features_lines:
  assumes "\<forall>l \<in> set (l_last # ls). 10 \<notin> set l"
    and "decode_utf8 (incoming conn) = Inr (concat (map (\<lambda>l. l @ [10]) ls) @ l_last)"
  shows "fst (list_features conn)
           = Inr (map_of (rev (List.map_filter feature_entry (ls @ [l_last]))))"
  using assms split_on_lines [of ls 10 l_last]
  by (simp add: list_features_decoded)

text \<open>
  C7. For every response that decodes, split at line feeds into its lines, the result is
  the dictionary built from the empty one by storing, line by line, what each matching line
  contributes; so a name maps to the value of the last line that carries it, and a name
  that no line carries is absent. A line \<open>feature:<name>\<close> whose name has no \<open>=\<close>
  contributes \<open>name -> True\<close>; a line \<open>feature:<name>=<value>\<close> contributes
  \<open>name -> value\<close>, a string; a carriage return that ends the line belongs to neither. A
  line that does not start with \<open>feature:\<close> does not match and contributes nothing. A
  response that does not decode raises \<open>UnicodeDecodeError\<close>. On
  \<open>feature:foo\nfeature:bar=2\n\<close> the result is \<open>{foo: True, bar: "2"}\<close>.
\<close>

theorem list_features_parses_lines:
  "(\<forall>conn ls l_last.
       (\<forall>l \<in> set (l_last # ls). 10 \<notin> set l)
       \<and> decode_utf8 (incoming conn) = Inr (concat (map (\<lambda>l. l @ [10]) ls) @ l_last)
       \<longrightarrow> fst (list_features conn)
             = Inr (map_of (rev (List.map_filter feature_entry (ls @ [l_last])))))
   \<and> (\<forall>conn. isl (decode_utf8 (incoming conn))
       \<longrightarrow> fst (list_features conn) = Inl UnicodeDecodeError)
   \<and> (\<forall>conn ls l_last before line after k v.
       (\<forall>l \<in> set (l_last # ls). 10 \<notin> set l)
       \<and> decode_utf8 (incoming conn) = Inr (concat (map (\<lambda>l. l @ [10]) ls) @ l_last)
       \<and> ls @ [l_last] = before @ line # after
       \<and> feature_entry line = Some (k, v)
       \<and> (\<forall>l \<in> set after. \<forall>v'. feature_entry l \<noteq> Some (k, v'))
       \<longrightarrow> (case fst (list_features conn) of Inl e \<Rightarrow> False | Inr m \<Rightarrow> m k = Some v))
   \<and> (\<forall>conn ls l_last k.
       (\<forall>l \<in> set (l_last # ls). 10 \<notin> set l)
       \<and> decode_utf8 (incoming conn) = Inr (concat (map (\<lambda>l. l @ [10]) ls) @ l_last)
       \<and> (\<forall>l \<in> set (ls @ [l_last]). \<forall>v. feature_entry l \<noteq> Some (k, v))
       \<longrightarrow> (case fst (list_features conn) of Inl e \<Rightarrow> False | Inr m \<Rightarrow> m k = None))
   \<and> (\<forall>name. 61 \<notin> set name \<and> 10 \<notin> set name
       \<longrightarrow> feature_entry (lit ''feature:'' @ name @ [13]) = Some (name, PyTrue)
         \<and> (name = [] \<or> last name \<noteq> 13
              \<longrightarrow> feature_entry (lit ''feature:'' @ name) = Some (name, PyTrue)))
   \<and> (\<forall>name v. 61 \<notin> set name \<and> 10 \<notin> set name \<and> 10 \<notin> set v
       \<longrightarrow> feature_entry (lit ''feature:'' @ name @ 61 # v @ [13]) = Some (name, PyStr v)
         \<and> (v = [] \<or> last v \<noteq> 13
              \<longrightarrow> feature_entry (lit ''feature:'' @ name @ 61 # v) = Some (name, PyStr v)))
   \<and> (\<forall>line. \<not> prefix (lit ''feature:'') line \<longrightarrow> feature_entry line = None)
   \<and> (\<forall>name. 61 \<notin> set name \<and> 10 \<notin> set name
       \<longrightarrow> match_feature (lit ''feature:'' @ name @ [13]) = Some (name, None)
         \<and> (name = [] \<or> last name \<noteq> 13
              \<longrightarrow> match_feature (lit ''feature:'' @ name) = Some (name, None)))
   \<and> (\<forall>name v. 61 \<notin> set name \<and> 10 \<notin> set name \<and> 10 \<notin> set v
       \<longrightarrow> match_feature (lit ''feature:'' @ name @ 61 # v @ [13]) = Some (name, Some v)
         \<and> (v = [] \<or> last v \<noteq> 13
              \<longrightarrow> match_feature (lit ''feature:'' @ name @ 61 # v) = Some (name, Some v)))
   \<and> (\<forall>line. \<not> prefix (lit ''feature:'') line \<longrightarrow> match_feature line = None)
   \<and> (\<forall>line lines features name.
         match_feature line = Some (name, None)
         \<longrightarrow> features_loop (line # lines) features
               = features_loop lines (features(name \<mapsto> PyTrue)))
   \<and> (\<forall>line lines features name v.
         match_feature line = Some (name, Some v)
         \<longrightarrow> features_loop (line # lines) features
               = features_loop lines (features(name \<mapsto> PyStr v)))
   \<and> (\<forall>line lines features.
         match_feature line = None
         \<longrightarrow> features_loop (line # lines) features = features_loop lines features)
   \<and> fst (list_features (fresh (ascii ''feature:foo'' @ [10] @ ascii ''feature:bar=2'' @ [10])))
       = Inr [lit ''foo'' \<mapsto> PyTrue, lit ''bar'' \<mapsto> PyStr (lit ''2'')]"
proof (intro conjI allI impI)
  fix conn :: connection and ls :: "str list" and l_last :: str
  assume "(\<forall>l \<in> set (l_last # ls). 10 \<notin> set l)
       \<and> decode_utf8 (incoming conn) = Inr (concat (map (\<lambda>l. l @ [10]) ls) @ l_last)"
  then show "fst (list_features conn)
             = Inr (map_of (rev (List.map_filter feature_entry (ls @ [l_last]))))"
    using list_features_lines [of l_last ls conn] by blast
next
  fix conn :: connection
  assume "isl (decode_utf8 (incoming conn))"
  then show "fst (list_features conn) = Inl UnicodeDecodeError"
    by (rule list_features_undecodable)
next
  fix conn :: connection and ls before after :: "str list" and l_last line k :: str
    and v :: feature_value
  assume h: "(\<forall>l \<in> set (l_last # ls). 10 \<notin> set l)
       \<and> decode_utf8 (incoming conn) = Inr (concat (map (\<lambda>l. l @ [10]) ls) @ l_last)
       \<and> ls @ [l_last] = before @ line # after
       \<and> feature_entry line = Some (k, v)
       \<and> (\<forall>l \<in> set after. \<forall>v'. feature_entry l \<noteq> Some (k, v'))"
  then have r: "fst (list_features conn)
             = Inr (map_of (rev (List.map_filter feature_entry (ls @ [l_last]))))"
    using list_features_lines [of l_last ls conn] by blast
  have "map_of (rev (List.map_filter feature_entry (ls @ [l_last]))) k = Some v"
    using h map_of_last_wins [of "ls @ [l_last]" before line after k v] by blast
  then show "case fst (list_features conn) of Inl e \<Rightarrow> False | Inr m \<Rightarrow> m k = Some v"
    by (simp add: r)
next
  fix conn :: connection and ls :: "str list" and l_last k :: str
  assume h: "(\<forall>l \<in> set (l_last # ls). 10 \<notin> set l)
       \<and> decode_utf8 (incoming conn) = Inr (concat (map (\<lambda>l. l @ [10]) ls) @ l_last)
       \<and> (\<forall>l \<in> set (ls @ [l_last]). \<forall>v. feature_entry l \<noteq> Some (k, v))"
  then have r: "fst (list_features conn)
             = Inr (map_of (rev (List.map_filter feature_entry (ls @ [l_last]))))"
    using list_features_lines [of l_last ls conn] by blast
  have "map_of (rev (List.map_filter feature_entry (ls @ [l_last]))) k = None"
    using h map_of_no_line [of "ls @ [l_last]" k] by blast
  then show "case fst (list_features conn) of Inl e \<Rightarrow> False | Inr m \<Rightarrow> m k = None"
    by (simp add: r)
next
  fix name :: str
  assume h: "61 \<notin> set name \<and> 10 \<notin> set name"
  then show "feature_entry (lit ''feature:'' @ name @ [13]) = Some (name, PyTrue)"
    using feature_entry_flag(1) [of name] by blast
  assume "name = [] \<or> last name \<noteq> 13"
  with h show "feature_entry (lit ''feature:'' @ name) = Some (name, PyTrue)"
    using feature_entry_flag(2) [of name] by blast
next
  fix name v :: str
  assume h: "61 \<notin> set name \<and> 10 \<notin> set name \<and> 10 \<notin> set v"
  then show "feature_entry (lit ''feature:'' @ name @ 61 # v @ [13]) = Some (name, PyStr v)"
    using feature_entry_value(1) [of name v] by blast
  assume "v = [] \<or> last v \<noteq> 13"
  with h show "feature_entry (lit ''feature:'' @ name @ 61 # v) = Some (name, PyStr v)"
    using feature_entry_value(2) [of name v] by blast
next
  fix line :: str
  assume "\<not> prefix (lit ''feature:'') line"
  then show "feature_entry line = None" by (rule feature_entry_other)
next
  fix name :: str
  assume h: "61 \<notin> set name \<and> 10 \<notin> set name"
  then show "match_feature (lit ''feature:'' @ name @ [13]) = Some (name, None)"
    unfolding match_feature_prefix using lazy_name_cr [of name "[]"] by simp
  assume "name = [] \<or> last name \<noteq> 13"
  with h show "match_feature (lit ''feature:'' @ name) = Some (name, None)"
    unfolding match_feature_prefix using lazy_name_plain [of name "[]"] by simp
next
  fix name v :: str
  assume h: "61 \<notin> set name \<and> 10 \<notin> set name \<and> 10 \<notin> set v"
  then have "lazy_value [] (v @ [13]) = Some v"
    using lazy_value_cr [of v "[]"] by simp
  with h show "match_feature (lit ''feature:'' @ name @ 61 # v @ [13]) = Some (name, Some v)"
    unfolding match_feature_prefix using lazy_name_value [of name "v @ [13]" v "[]"] by simp
  assume "v = [] \<or> last v \<noteq> 13"
  with h have "lazy_value [] v = Some v"
    using lazy_value_plain [of v "[]"] by simp
  with h show "match_feature (lit ''feature:'' @ name @ 61 # v) = Some (name, Some v)"
    unfolding match_feature_prefix using lazy_name_value [of name v v "[]"] by simp
next
  fix line :: str
  assume "\<not> prefix (lit ''feature:'') line"
  then show "match_feature line = None" by (simp add: match_feature_def)
next
  fix line :: str and lines :: "str list" and features :: "str \<rightharpoonup> feature_value"
    and name :: str
  assume "match_feature line = Some (name, None)"
  then show "features_loop (line # lines) features
               = features_loop lines (features(name \<mapsto> PyTrue))"
    by simp
next
  fix line :: str and lines :: "str list" and features :: "str \<rightharpoonup> feature_value"
    and name v :: str
  assume "match_feature line = Some (name, Some v)"
  then show "features_loop (line # lines) features
               = features_loop lines (features(name \<mapsto> PyStr v))"
    by simp
next
  fix line :: str and lines :: "str list" and features :: "str \<rightharpoonup> feature_value"
  assume "match_feature line = None"
  then show "features_loop (line # lines) features = features_loop lines features"
    by simp
next
  show "fst (list_features (fresh (ascii ''feature:foo'' @ [10] @ ascii ''feature:bar=2'' @ [10])))
       = Inr [lit ''foo'' \<mapsto> PyTrue, lit ''bar'' \<mapsto> PyStr (lit ''2'')]"
    by (rule features_example)
qed

theorem list_features_parses_lines_witness:
  "10 \<notin> set (lit ''feature:a=2'') \<and> 10 \<notin> set (lit ''feature:a'' @ [13])
   \<and> 10 \<notin> set (lit ''feature:b=1'') \<and> 10 \<notin> set (lit ''junk'')
   \<and> decode_utf8 (incoming (fresh (ascii ''feature:a'' @ [13, 10] @ ascii ''feature:b=1'' @ [10]
          @ ascii ''junk'' @ [10] @ ascii ''feature:a=2'')))
       = Inr (concat (map (\<lambda>l. l @ [10])
                [lit ''feature:a'' @ [13], lit ''feature:b=1'', lit ''junk''])
              @ lit ''feature:a=2'')
   \<and> fst (list_features (fresh (ascii ''feature:a'' @ [13, 10] @ ascii ''feature:b=1'' @ [10]
          @ ascii ''junk'' @ [10] @ ascii ''feature:a=2'')))
       = Inr [lit ''b'' \<mapsto> PyStr (lit ''1''), lit ''a'' \<mapsto> PyStr (lit ''2'')]"
proof -
  let ?ls = "[lit ''feature:a'' @ [13], lit ''feature:b=1'', lit ''junk'']"
  let ?last = "lit ''feature:a=2''"
  let ?conn = "fresh (ascii ''feature:a'' @ [13, 10] @ ascii ''feature:b=1'' @ [10]
          @ ascii ''junk'' @ [10] @ ascii ''feature:a=2'')"
  have n: "10 \<notin> set ?last" "10 \<notin> set (lit ''feature:a'' @ [13])"
    "10 \<notin> set (lit ''feature:b=1'')" "10 \<notin> set (lit ''junk'')"
    by (simp_all add: lit_def)
  have d: "decode_utf8 (incoming ?conn) = Inr (concat (map (\<lambda>l. l @ [10]) ?ls) @ ?last)"
    unfolding fresh_def by (simp, subst decode_ascii) (simp_all add: ascii_def lit_def)
  have e1: "feature_entry (lit ''feature:a'' @ [13]) = Some (lit ''a'', PyTrue)"
    using feature_entry_flag(1) [of "lit ''a''"] by (simp add: lit_def)
  have e2: "feature_entry (lit ''feature:b=1'') = Some (lit ''b'', PyStr (lit ''1''))"
    using feature_entry_value(2) [of "lit ''b''" "lit ''1''"] by (simp add: lit_def)
  have e3: "feature_entry (lit ''junk'') = None"
    by (rule feature_entry_other) (simp add: lit_def)
  have e4: "feature_entry (lit ''feature:a=2'') = Some (lit ''a'', PyStr (lit ''2''))"
    using feature_entry_value(2) [of "lit ''a''" "lit ''2''"] by (simp add: lit_def)
  have ne: "lit ''a'' \<noteq> lit ''b''" by (simp add: lit_def)
  have prem: "(\<forall>l \<in> set (?last # ?ls). 10 \<notin> set l)
       \<and> decode_utf8 (incoming ?conn) = Inr (concat (map (\<lambda>l. l @ [10]) ?ls) @ ?last)"
    using n d by simp
  note g = list_features_parses_lines [THEN conjunct1, rule_format, where conn = ?conn and ls = ?ls and l_last = ?last]
  have "fst (list_features ?conn)
      = Inr (map_of (rev (List.map_filter feature_entry (?ls @ [?last]))))"
    by (rule g [OF prem])
  also have "map_of (rev (List.map_filter feature_entry (?ls @ [?last])))
      = [lit ''b'' \<mapsto> PyStr (lit ''1''), lit ''a'' \<mapsto> PyStr (lit ''2'')]"
    using ne by (simp add: e1 e2 e3 e4 fun_eq_iff)
  finally have r: "fst (list_features ?conn)
      = Inr [lit ''b'' \<mapsto> PyStr (lit ''1''), lit ''a'' \<mapsto> PyStr (lit ''2'')]" .
  show ?thesis using n d r by blast
qed

section \<open>Root\<close>

text \<open>
  C8, as amended. \<open>root()\<close> sends \<open>root:\<close>, reads the whole response and decodes it. It
  returns \<open>True\<close> exactly when the text contains the phrase \<open>restarting adbd as root\<close>;
  otherwise it raises \<open>RuntimeError\<close> with the text stripped of leading and trailing white
  space. The connection is closed either way.
\<close>

theorem root_checks_confirmation_phrase:
  assumes "incoming conn = bs" and "decode_utf8 bs = Inr result"
  shows "fst (root_cmd conn) =
           (if sublist (lit ''restarting adbd as root'') result then Inr True
            else Inl (RuntimeError (py_strip result)))
         \<and> sent (snd (root_cmd conn)) = sent conn @ [lit ''root:'']
         \<and> incoming (snd (root_cmd conn)) = []
         \<and> is_closed (snd (root_cmd conn))"
  using assms
  by (simp add: root_cmd_def Let_def conn_read_all_def conn_send_def conn_close_def
      str_contains_sublist)

theorem root_checks_confirmation_phrase_witness:
  "incoming (fresh (ascii ''restarting adbd as root'' @ [10]))
     = ascii ''restarting adbd as root'' @ [10]
   \<and> decode_utf8 (ascii ''restarting adbd as root'' @ [10])
     = Inr (lit ''restarting adbd as root'' @ [10])
   \<and> fst (root_cmd (fresh (ascii ''restarting adbd as root'' @ [10]))) = Inr True
   \<and> is_closed (snd (root_cmd (fresh (ascii ''restarting adbd as root'' @ [10]))))"
proof -
  let ?bs = "ascii ''restarting adbd as root'' @ [10]"
  have i: "incoming (fresh ?bs) = ?bs" by (simp add: fresh_def)
  have d: "decode_utf8 ?bs = Inr (lit ''restarting adbd as root'' @ [10])"
    by (subst decode_ascii) (simp_all add: ascii_def lit_def)
  have "sublist (lit ''restarting adbd as root'') (lit ''restarting adbd as root'' @ [10])"
    unfolding sublist_def by (rule exI [of _ "[]"], rule exI [of _ "[10]"]) simp
  then show ?thesis
    using root_checks_confirmation_phrase [OF i d] i d by simp
qed

text \<open>
  C8 as stated fails: the error carries the stripped message, not the raw one. The server
  answers with a line that ends in a line feed; the line feed is not in the error.
\<close>

theorem root_error_message_counterexample:
  "fst (root_cmd (fresh (ascii ''adbd cannot run as root in production builds'' @ [10])))
     = Inl (RuntimeError (lit ''adbd cannot run as root in production builds''))
   \<and> lit ''adbd cannot run as root in production builds''
       \<noteq> lit ''adbd cannot run as root in production builds'' @ [10]"
proof -
  let ?bs = "ascii ''adbd cannot run as root in production builds'' @ [10]"
  have d: "decode_utf8 ?bs = Inr (lit ''adbd cannot run as root in production builds'' @ [10])"
    by (subst decode_ascii) (simp_all add: ascii_def lit_def)
  have n: "\<not> str_contains (lit ''restarting adbd as root'')
              (lit ''adbd cannot run as root in production builds'' @ [10])"
    by (simp add: lit_def)
  have s: "py_strip (lit ''adbd cannot run as root in production builds'' @ [10])
            = lit ''adbd cannot run as root in production builds''"
    by (simp add: py_strip_def lit_def py_isspace_def)
  show ?thesis
    by (simp add: root_cmd_def Let_def conn_read_all_def conn_send_def fresh_def d n s)
qed

section \<open>The boot poller\<close>

lemma strip_zero: "py_strip (lit ''0'') \<noteq> lit ''1''"
  by (simp add: py_strip_def lit_def py_isspace_def)

text \<open>One iteration on a query that answers "0".\<close>

lemma wait_loop_zero_step:
  assumes "fst (q (attempts w)) = Inr (lit ''0'')"
  shows "wait_loop (Suc fuel) q end_time timedelta w =
     (if clock w + snd (q (attempts w)) > end_time
      then (Some (Inl TimeoutError), snd (time_time (snd (run_query q w))))
      else if timedelta > 0
      then wait_loop fuel q end_time timedelta
             (time_sleep timedelta (snd (time_time (snd (run_query q w)))))
      else wait_loop fuel q end_time timedelta (snd (time_time (snd (run_query q w)))))"
  using assms strip_zero
  by (simp add: run_query_def time_time_def)

lemma world_after_attempt:
  "clock (snd (time_time (snd (run_query q w)))) = clock w + snd (q (attempts w))"
  "attempts (snd (time_time (snd (run_query q w)))) = Suc (attempts w)"
  "clock (time_sleep d (snd (time_time (snd (run_query q w))))) = clock w + snd (q (attempts w)) + d"
  "attempts (time_sleep d (snd (time_time (snd (run_query q w))))) = Suc (attempts w)"
  by (simp_all add: run_query_def time_time_def time_sleep_def)

lemma wait_loop_times_out:
  assumes "\<forall>k. fst (q k) = Inr (lit ''0'')" and "\<forall>k. 0 \<le> snd (q k)" and "0 < timedelta"
  shows "end_time - real n * timedelta < clock w \<Longrightarrow> n < fuel \<Longrightarrow>
     fst (wait_loop fuel q end_time timedelta w) = Some (Inl TimeoutError)
     \<and> end_time < clock (snd (wait_loop fuel q end_time timedelta w))
     \<and> Suc (attempts w) \<le> attempts (snd (wait_loop fuel q end_time timedelta w))"
proof (induction n arbitrary: w fuel)
  case 0
  then obtain m where fuel: "fuel = Suc m" by (cases fuel) auto
  have "end_time < clock w + snd (q (attempts w))"
    using 0 assms(2) [rule_format, of "attempts w"] by simp
  then show ?case
    unfolding fuel using assms(1) by (simp add: wait_loop_zero_step world_after_attempt del: wait_loop.simps)
next
  case (Suc n)
  then obtain m where fuel: "fuel = Suc m" and m: "n < m" by (cases fuel) auto
  let ?d = "snd (q (attempts w))"
  have d: "0 \<le> ?d" using assms(2) by simp
  show ?case
  proof (cases "end_time < clock w + ?d")
    case True
    then show ?thesis
      unfolding fuel using assms(1) by (simp add: wait_loop_zero_step world_after_attempt del: wait_loop.simps)
  next
    case False
    let ?w = "time_sleep timedelta (snd (time_time (snd (run_query q w))))"
    have "end_time - real n * timedelta < clock ?w"
      using Suc.prems(1) d by (simp add: algebra_simps world_after_attempt)
    from Suc.IH [OF this m] have
      "fst (wait_loop m q end_time timedelta ?w) = Some (Inl TimeoutError)
       \<and> end_time < clock (snd (wait_loop m q end_time timedelta ?w))
       \<and> Suc (attempts ?w) \<le> attempts (snd (wait_loop m q end_time timedelta ?w))" .
    then show ?thesis
      unfolding fuel using assms(1,3) False
      by (simp add: wait_loop_zero_step world_after_attempt del: wait_loop.simps)
  qed
qed

text \<open>
  C5, as amended. With timeout 2 and interval 1, against a query that always answers "0",
  takes no negative time, and whose first invocation returns within the timeout, the call
  raises \<open>TimeoutError\<close> (four iterations of fuel are enough, and more fuel changes
  nothing), the clock then reads more than 2 seconds past its reading at entry, and at
  least 2 queries have been made. The deadline is the clock reading at entry plus the
  timeout; the loop takes it as a fixed argument.
\<close>

theorem boot_poll_times_out:
  assumes "\<forall>k. fst (q k) = Inr (lit ''0'')" and "\<forall>k. 0 \<le> snd (q k)"
    and "snd (q (attempts w)) \<le> 2" and "4 \<le> fuel"
  shows "fst (wait_boot_complete fuel q 2 1 w) = Some (Inl TimeoutError)
     \<and> clock w + 2 < clock (snd (wait_boot_complete fuel q 2 1 w))
     \<and> attempts w + 2 \<le> attempts (snd (wait_boot_complete fuel q 2 1 w))
     \<and> wait_boot_complete fuel q 2 1 w
         = wait_loop fuel q (clock w + 2) 1 (snd (time_time w))"
proof -
  obtain m where fuel: "fuel = Suc m" and m: "2 < m" using assms(4) by (cases fuel) auto
  let ?e = "clock w + 2"
  let ?w0 = "snd (time_time w)"
  let ?w1 = "time_sleep 1 (snd (time_time (snd (run_query q ?w0))))"
  have w0: "clock ?w0 = clock w" "attempts ?w0 = attempts w"
    by (simp_all add: time_time_def)
  have unfold: "wait_boot_complete fuel q 2 1 w = wait_loop fuel q ?e 1 ?w0"
    by (simp add: wait_boot_complete_def time_time_def)
  have first: "wait_loop fuel q ?e 1 ?w0 = wait_loop m q ?e 1 ?w1"
    unfolding fuel using assms(1,3) by (simp add: wait_loop_zero_step w0 del: wait_loop.simps)
  have "?e - real 2 * 1 < clock ?w1"
    using assms(2) [rule_format, of "attempts w"] by (simp add: world_after_attempt w0)
  from wait_loop_times_out [OF assms(1,2) _ this m]
  have "fst (wait_loop m q ?e 1 ?w1) = Some (Inl TimeoutError)
     \<and> ?e < clock (snd (wait_loop m q ?e 1 ?w1))
     \<and> Suc (attempts ?w1) \<le> attempts (snd (wait_loop m q ?e 1 ?w1))"
    by simp
  then show ?thesis
    unfolding unfold first by (simp add: world_after_attempt w0)
qed

theorem boot_poll_times_out_witness:
  "(\<forall>k. fst (answering (lit ''0'') 0 k) = Inr (lit ''0''))
   \<and> (\<forall>k. 0 \<le> snd (answering (lit ''0'') 0 k))
   \<and> snd (answering (lit ''0'') 0 (attempts start)) \<le> 2
   \<and> (4::nat) \<le> 4
   \<and> fst (wait_boot_complete 4 (answering (lit ''0'') 0) 2 1 start) = Some (Inl TimeoutError)
   \<and> clock start + 2 < clock (snd (wait_boot_complete 4 (answering (lit ''0'') 0) 2 1 start))
   \<and> attempts start + 2 \<le> attempts (snd (wait_boot_complete 4 (answering (lit ''0'') 0) 2 1 start))"
proof -
  have a: "\<forall>k. fst (answering (lit ''0'') 0 k) = Inr (lit ''0'')"
    and b: "\<forall>k. 0 \<le> snd (answering (lit ''0'') 0 k)"
    and c: "snd (answering (lit ''0'') 0 (attempts start)) \<le> 2"
    and d: "(4::nat) \<le> 4"
    by (simp_all add: answering_def)
  note r = boot_poll_times_out [OF a b c d]
  show ?thesis
    using a b c r [THEN conjunct1] r [THEN conjunct2, THEN conjunct1]
      r [THEN conjunct2, THEN conjunct2, THEN conjunct1]
    by (intro conjI) simp_all
qed

text \<open>
  C5 as stated fails: a query that answers "0" after 3 seconds is past the deadline when it
  returns, and the call raises after that single attempt.
\<close>

theorem boot_poll_single_attempt_counterexample:
  "fst (wait_boot_complete 4 (answering (lit ''0'') 3) 2 1 start) = Some (Inl TimeoutError)
   \<and> attempts (snd (wait_boot_complete 4 (answering (lit ''0'') 3) 2 1 start)) = 1"
proof -
  have f: "(4::nat) = Suc 3" by simp
  have a: "fst (answering (lit ''0'') 3 (attempts (snd (time_time start)))) = Inr (lit ''0'')"
    by (simp add: answering_def)
  have "wait_boot_complete 4 (answering (lit ''0'') 3) 2 1 start
      = (Some (Inl TimeoutError),
         snd (time_time (snd (run_query (answering (lit ''0'') 3) (snd (time_time start))))))"
    unfolding wait_boot_complete_def f
    using wait_loop_zero_step [of "answering (lit ''0'') 3" "snd (time_time start)" 3
        "clock start + 2" 1, OF a]
    by (simp add: time_time_def start_def answering_def del: wait_loop.simps)
  then show ?thesis
    by (simp add: time_time_def run_query_def start_def)
qed

lemma wait_loop_failing:
  assumes "\<forall>k. case fst (q k) of Inl e \<Rightarrow> is_RuntimeError e | Inr r \<Rightarrow> False"
  shows "fst (wait_loop fuel q end_time timedelta w) = None
     \<and> sleeps (snd (wait_loop fuel q end_time timedelta w)) = sleeps w
     \<and> clock_reads (snd (wait_loop fuel q end_time timedelta w)) = clock_reads w
     \<and> attempts (snd (wait_loop fuel q end_time timedelta w)) = attempts w + fuel"
proof (induction fuel arbitrary: w)
  case 0
  show ?case by simp
next
  case (Suc fuel)
  obtain e where e: "fst (q (attempts w)) = Inl e" "is_RuntimeError e"
    using assms [rule_format, of "attempts w"] by (cases "fst (q (attempts w))") auto
  let ?w = "w\<lparr>clock := clock w + snd (q (attempts w)), attempts := Suc (attempts w)\<rparr>"
  have "wait_loop (Suc fuel) q end_time timedelta w = wait_loop fuel q end_time timedelta ?w"
    using e by (simp add: run_query_def)
  then show ?case using Suc [of ?w] by simp
qed

text \<open>
  C10. When every invocation of the query raises \<open>RuntimeError\<close>, the loop is still running
  after any number of iterations: nothing is returned and nothing raised, so no
  \<open>TimeoutError\<close>. It has then made one query per iteration, has not slept, and has read
  the clock once, at entry, to compute the deadline.
\<close>

theorem failing_query_never_times_out:
  assumes "\<forall>k. case fst (q k) of Inl e \<Rightarrow> is_RuntimeError e | Inr r \<Rightarrow> False"
  shows "fst (wait_boot_complete fuel q timeout timedelta w) = None
     \<and> sleeps (snd (wait_boot_complete fuel q timeout timedelta w)) = sleeps w
     \<and> clock_reads (snd (wait_boot_complete fuel q timeout timedelta w)) = Suc (clock_reads w)
     \<and> attempts (snd (wait_boot_complete fuel q timeout timedelta w)) = attempts w + fuel"
  using wait_loop_failing [OF assms, of fuel "clock w + timeout" timedelta
      "w\<lparr>clock_reads := Suc (clock_reads w)\<rparr>"]
  by (simp add: wait_boot_complete_def time_time_def)

theorem failing_query_never_times_out_witness:
  "(\<forall>k. case fst (failing (lit ''ERROR'') 0 k) of Inl e \<Rightarrow> is_RuntimeError e | Inr r \<Rightarrow> False)
   \<and> fst (wait_boot_complete 1000 (failing (lit ''ERROR'') 0) 2 1 start) = None
   \<and> sleeps (snd (wait_boot_complete 1000 (failing (lit ''ERROR'') 0) 2 1 start)) = 0
   \<and> clock_reads (snd (wait_boot_complete 1000 (failing (lit ''ERROR'') 0) 2 1 start)) = 1
   \<and> attempts (snd (wait_boot_complete 1000 (failing (lit ''ERROR'') 0) 2 1 start)) = 1000"
proof -
  have a: "\<forall>k. case fst (failing (lit ''ERROR'') 0 k) of Inl e \<Rightarrow> is_RuntimeError e | Inr r \<Rightarrow> False"
    by (simp add: failing_def)
  show ?thesis
    using failing_query_never_times_out [OF a, of 1000 2 1 start] a by (simp add: start_def)
qed

end
